theory Spec2Isabelle
  imports Main "HOL-Library.AList" "HOL-Library.Sublist"
begin

section \<open>Gallery preloader and preview overlay (gallery.js)\<close>

text \<open>
  The script is event driven: every piece of it runs as a callback of the browser
  (page ready, a call from the page, a keydown, a click, a load or error signal of an
  element, a timer). The model is a record of everything the script reads or writes
  (\<open>world\<close>), one function per source function or closure, and a \<open>step\<close> function that
  runs the callback an event triggers. Identifiers are strings; the element objects the
  script creates are kept in stores indexed by creation order, so that object identity is
  the index.
\<close>

subsection \<open>JavaScript primitives the script uses\<close>

text \<open>\<open>String.prototype.endsWith\<close>.\<close>

definition endsWith :: "string \<Rightarrow> string \<Rightarrow> bool" where
  "endsWith s suf \<longleftrightarrow> length suf \<le> length s \<and> drop (length s - length suf) s = suf"

text \<open>\<open>Array.prototype.indexOf\<close>: the first position holding the value, or -1.\<close>

primrec indexOf :: "string list \<Rightarrow> string \<Rightarrow> int" where
  "indexOf [] x = - 1"
| "indexOf (y # ys) x =
     (if y = x then 0 else (let r = indexOf ys x in if r < 0 then - 1 else r + 1))"

text \<open>
  The remainder operator \<open>%\<close> on integers: the sign follows the dividend, and a zero
  divisor gives \<open>NaN\<close>, written \<open>None\<close>. (A result \<open>-0\<close> is 0 here: as an array index
  and under \<open>!==\<close> the two are the same.)
\<close>

definition js_rem :: "int \<Rightarrow> int \<Rightarrow> int option" where
  "js_rem a b = (if b = 0 then None else Some (sgn a * (\<bar>a\<bar> mod \<bar>b\<bar>)))"

text \<open>\<open>images[index]\<close>: \<open>undefined\<close> (\<open>None\<close>) outside the array and at \<open>NaN\<close>.\<close>

fun js_index :: "'a list \<Rightarrow> int option \<Rightarrow> 'a option" where
  "js_index xs None = None"
| "js_index xs (Some i) = (if 0 \<le> i \<and> i < int (length xs) then Some (xs ! nat i) else None)"

text \<open>\<open>classList.remove\<close> and \<open>classList.add\<close> on the token list of an element.\<close>

definition classList_remove :: "string \<Rightarrow> string list \<Rightarrow> string list" where
  "classList_remove c cs = filter (\<lambda>d. d \<noteq> c) cs"

definition classList_add :: "string \<Rightarrow> string list \<Rightarrow> string list" where
  "classList_add c cs = (if c \<in> set cs then cs else cs @ [c])"

datatype js_error = TypeError

subsection \<open>Data\<close>

datatype media = Image | Video

text \<open>A loaded media element: its kind, its \<open>src\<close>, and the load that created it.\<close>

record element =
  el_kind :: media
  el_src :: string
  el_load :: nat

text \<open>The state of a promise, and the outcome objects of \<open>Promise.allSettled\<close>.\<close>

datatype settle = Pending | Fulfilled element | Rejected string

datatype outcome = OFulfilled element | ORejected string

text \<open>
  One call of \<open>preload\<close> on an identifier that is not cached: the element it creates, the
  promise it returns, and the message of the \<open>.catch\<close> handler when the caller attached
  one.
\<close>

record load =
  l_src :: string
  l_kind :: media
  l_state :: settle
  l_catch :: "string option"

text \<open>
  A promise returned by \<open>preload\<close>: \<open>Promise.resolve\<close> of a cached element, or the promise
  of a load.
\<close>

datatype promise = Immediate element | OfLoad nat

text \<open>
  A call of \<open>Promise.allSettled\<close>: the promises it waits for, and the gallery list captured
  by the \<open>.then\<close> callback of \<open>initializeProjectGallery\<close> while that callback has not run.
\<close>

record batch =
  b_slots :: "promise list"
  b_then :: "string list option"

text \<open>
  An overlay element: its class list, its contents (the loader and the content element,
  or the markup assigned to \<open>innerHTML\<close>), and the \<open>src\<close> and \<open>isVideo\<close> its closures
  captured.
\<close>

datatype child = Loader | Content media string

datatype contents = Elements "child list" | Markup string

record overlay =
  ov_classes :: "string list"
  ov_contents :: contents
  ov_src :: string
  ov_video :: bool

text \<open>The two keydown closures of an overlay, named by the overlay that owns them.\<close>

datatype listener = EscHandler nat | KeyNavHandler nat

text \<open>The two kinds of closure passed to \<open>setTimeout\<close>.\<close>

datatype timer_action = Cleanup nat | ShowProjectImages "int option"

record world =
  cache :: "(string \<times> element) list"
  loads :: "load list"
  batches :: "batch list"
  nodes :: "overlay list"
  document :: "nat list"
  listeners :: "listener list"
  timers :: "(nat \<times> timer_action) list"
  now :: nat
  console :: "string list"
  uncaught :: "js_error list"

text \<open>
  \<open>cache\<close> is the \<open>Map\<close> of \<open>PreloadManager\<close>; \<open>loads\<close> and \<open>nodes\<close> hold every load and
  every overlay created so far; \<open>document\<close> lists the overlays attached to the body, in
  document order; \<open>listeners\<close> are the keydown listeners of the document, in registration
  order; \<open>timers\<close> are the pending timers with their due times, earliest first; \<open>console\<close>
  holds the warnings and \<open>uncaught\<close> the exceptions no callback caught.
\<close>

definition init :: world where
  "init = \<lparr>cache = [], loads = [], batches = [], nodes = [], document = [], listeners = [],
     timers = [], now = 0, console = [], uncaught = []\<rparr>"

definition archProjectImages :: "string list" where
  "archProjectImages =
    [
     ''images/arch1.jpg'', ''images/arch2.jpg'', ''images/arch3.jpg'', ''images/arch4.jpg'',
     ''images/arch5.jpg'', ''images/arch6.jpg'', ''images/arch7.jpg'', ''images/arch8.jpg'',
     ''images/arch9.jpg'', ''images/arch10.jpg'', ''images/arch11.jpg'', ''images/arch12.jpg'',
     ''images/arch13.jpg'', ''images/arch14.jpg'', ''images/arch15.jpg'', ''images/arch16.jpg'',
     ''images/arch17.jpg'', ''images/arch18.jpg'', ''images/arch19.jpg'', ''images/arch20.jpg'',
     ''images/arch21.jpg'', ''images/arch22.jpg'', ''images/arch23.jpg'', ''images/arch24.jpg'',
     ''images/arch25.jpg'', ''images/arch26.jpg'', ''images/arch27.jpg'', ''images/arch28.jpg'',
     ''images/arch29.jpg'', ''images/arch30.jpg'', ''images/arch31.jpg'', ''images/arch32.jpg'',
     ''images/arch33.jpg'', ''images/arch34.jpg'', ''images/arch35.jpg'', ''images/arch36.jpg'',
     ''images/arch37.jpg'', ''images/arch38.jpg'', ''images/arch39.jpg'', ''images/arch40.jpg'',
     ''images/arch41.jpg'', ''images/arch42.jpg'', ''images/arch43.jpg'', ''images/arch44.jpg'',
     ''images/arch45.jpg'', ''images/arch46.jpg'', ''images/arch47.jpg'', ''images/arch48.jpg'',
     ''images/arch49.jpg'', ''images/arch50.jpg'', ''images/arch51.jpg'', ''images/arch52.jpg'',
     ''images/arch53.jpg'', ''images/arch54.jpg'', ''images/arch55.jpg'', ''images/arch56.jpg'',
     ''images/arch57.jpg'', ''images/arch58.jpg'', ''images/arch59.jpg'', ''images/arch60.jpg'',
     ''images/arch61.jpg'', ''images/arch62.jpg'', ''images/arch63.jpg'', ''images/arch64.jpg'',
     ''images/arch65.jpg'', ''images/arch66.jpg'', ''images/arch67.jpg'', ''images/arch68.jpg'',
     ''images/arch69.jpg'', ''images/arch70.jpg'', ''images/arch71.jpg'', ''images/arch72.jpg'',
     ''images/arch73.jpg'', ''images/arch74.jpg'', ''images/arch75.jpg'', ''images/arch76.jpg'',
     ''images/arch77.jpg'', ''images/arch78.jpg'', ''images/arch79.jpg'', ''images/arch80.jpg'',
     ''images/arch81.jpg'', ''images/arch82.jpg'', ''images/arch83.jpg'', ''images/arch84.jpg'',
     ''images/arch85.jpg'', ''images/arch86.jpg'', ''images/arch87.jpg'', ''images/arch88.jpg'',
     ''images/arch89.jpg'', ''images/arch90.jpg'', ''images/arch91.jpg'', ''images/arch92.jpg'',
     ''images/arch93.jpg'', ''images/arch94.jpg'', ''images/arch95.jpg'', ''images/arch96.jpg'',
     ''images/arch97.jpg'', ''images/arch98.jpg'', ''images/arch99.jpg'', ''images/arch100.jpg'',
     ''images/arch101.jpg'', ''images/arch102.jpg'', ''images/arch103.jpg'', ''images/arch104.jpg'',
     ''images/arch105.jpg'', ''images/arch106.jpg'', ''images/arch107.jpg'', ''images/arch108.jpg'',
     ''images/arch109.jpg'', ''images/arch110.jpg'', ''images/arch111.jpg'', ''images/arch112.jpg'',
     ''images/arch113.jpg'', ''images/arch114.jpg'', ''images/arch115.jpg'', ''images/arch116.jpg'',
     ''images/arch117.jpg'', ''images/arch118.jpg'', ''images/arch119.jpg'', ''images/arch120.jpg'',
     ''images/arch121.jpg'', ''images/arch122.jpg'', ''images/arch123.jpg'', ''images/arch124.jpg'',
     ''images/arch125.jpg'', ''images/arch126.jpg'', ''images/arch127.jpg'', ''images/arch128.jpg'',
     ''images/arch129.jpg'', ''images/arch130.jpg'', ''images/arch131.jpg'', ''images/arch132.jpg'',
     ''images/arch133.jpg'', ''images/arch134.jpg'', ''images/arch135.jpg'', ''images/arch136.jpg'',
     ''images/arch137.jpg'', ''images/arch138.jpg'', ''images/arch139.jpg'', ''images/arch140.jpg'',
     ''images/arch141.jpg'', ''images/arch142.jpg'', ''images/arch143.jpg'', ''images/arch144.jpg'',
     ''images/arch145.jpg'', ''images/arch146.jpg'', ''images/arch147.jpg'', ''images/arch148.jpg'',
     ''images/arch149.jpg'', ''images/arch150.jpg'', ''images/arch151.jpg'', ''images/arch152.jpg'',
     ''images/arch153.jpg'', ''images/arch154.jpg'', ''images/arch155.jpg'', ''images/arch156.jpg'',
     ''images/arch157.jpg'', ''images/arch158.jpg'', ''images/arch159.jpg'', ''images/arch160.jpg'',
     ''images/arch161.jpg'', ''images/arch162.jpg'', ''images/arch163.jpg'', ''images/arch164.jpg'',
     ''images/arch165.jpg'', ''images/arch166.jpg'', ''images/arch167.jpg'', ''images/arch168.jpg'',
     ''images/arch169.jpg'', ''images/arch170.jpg'', ''images/arch171.jpg'', ''images/arch172.jpg'',
     ''images/arch173.jpg'', ''images/arch174.jpg'', ''images/arch175.jpg'', ''images/arch176.jpg'',
     ''images/arch177.jpg'', ''images/arch178.jpg'', ''images/arch179.jpg'', ''images/arch180.jpg'',
     ''images/arch181.jpg'', ''images/arch182.jpg'', ''images/arch183.jpg'', ''images/arch184.jpg'',
     ''images/arch185.jpg'', ''images/arch186.jpg'', ''images/arch187.jpg'', ''images/arch188.jpg'',
     ''images/arch189.jpg'', ''images/arch190.jpg'', ''images/arch191.jpg'', ''images/arch192.jpg'',
     ''images/arch193.jpg'', ''images/arch194.jpg'', ''images/arch195.jpg'', ''images/arch196.jpg'',
     ''images/arch197.jpg'', ''images/arch198.jpg'', ''images/arch199.jpg'', ''images/arch200.jpg''
    ]"

subsection \<open>PreloadManager\<close>

definition preload :: "string \<Rightarrow> world \<Rightarrow> promise \<times> world" where
  "preload src w =
     (case map_of (cache w) src of
        Some h \<Rightarrow> (Immediate h, w)
      | None \<Rightarrow>
          (let isVideo = endsWith src ''.mp4'' \<or> endsWith src ''.webm'' in
           if isVideo
           then (OfLoad (length (loads w)),
                 w\<lparr>loads := loads w @ [\<lparr>l_src = src, l_kind = Video, l_state = Pending, l_catch = None\<rparr>]\<rparr>)
           else (OfLoad (length (loads w)),
                 w\<lparr>loads := loads w @ [\<lparr>l_src = src, l_kind = Image, l_state = Pending, l_catch = None\<rparr>]\<rparr>)))"

text \<open>\<open>resolve\<close> and \<open>reject\<close> of a load's promise: a settled promise stays as it is.\<close>

definition resolve :: "nat \<Rightarrow> element \<Rightarrow> world \<Rightarrow> world" where
  "resolve lid h w =
     (if l_state (loads w ! lid) = Pending
      then w\<lparr>loads := (loads w)[lid := (loads w ! lid)\<lparr>l_state := Fulfilled h\<rparr>]\<rparr>
      else w)"

definition reject :: "nat \<Rightarrow> string \<Rightarrow> world \<Rightarrow> world" where
  "reject lid msg w =
     (if l_state (loads w ! lid) = Pending
      then (let w1 = w\<lparr>loads := (loads w)[lid := (loads w ! lid)\<lparr>l_state := Rejected msg\<rparr>]\<rparr> in
            case l_catch (loads w ! lid) of
              None \<Rightarrow> w1
            | Some warning \<Rightarrow> w1\<lparr>console := console w1 @ [warning]\<rparr>)
      else w)"

text \<open>
  \<open>video.onloadeddata\<close> and \<open>img.onload\<close> of the element of load \<open>lid\<close>: the cache is set,
  then the promise is resolved.
\<close>

definition preload_onload :: "nat \<Rightarrow> world \<Rightarrow> world" where
  "preload_onload lid w =
     (if lid < length (loads w)
      then (let l = loads w ! lid;
                h = \<lparr>el_kind = l_kind l, el_src = l_src l, el_load = lid\<rparr>
            in resolve lid h (w\<lparr>cache := AList.update (l_src l) h (cache w)\<rparr>))
      else w)"

text \<open>\<open>video.onerror\<close> and \<open>img.onerror\<close> of the element of load \<open>lid\<close>.\<close>

definition preload_onerror :: "nat \<Rightarrow> world \<Rightarrow> world" where
  "preload_onerror lid w =
     (if lid < length (loads w)
      then (let l = loads w ! lid in
            case l_kind l of
              Video \<Rightarrow> reject lid (''Failed to load video: '' @ l_src l) w
            | Image \<Rightarrow> reject lid (''Failed to load image: '' @ l_src l) w)
      else w)"

text \<open>\<open>sources.map(src => this.preload(src))\<close>, left to right.\<close>

fun preload_each :: "string list \<Rightarrow> world \<Rightarrow> promise list \<times> world" where
  "preload_each [] w = ([], w)"
| "preload_each (src # rest) w =
     (let (p, w1) = preload src w; (ps, w2) = preload_each rest w1 in (p # ps, w2))"

text \<open>\<open>preloadAll\<close> returns the \<open>allSettled\<close> promise, named by its position in \<open>batches\<close>.\<close>

definition preloadAll :: "string list \<Rightarrow> world \<Rightarrow> nat \<times> world" where
  "preloadAll sources w =
     (let (ps, w1) = preload_each sources w in
      (length (batches w1), w1\<lparr>batches := batches w1 @ [\<lparr>b_slots = ps, b_then = None\<rparr>]\<rparr>))"

definition promise_state :: "world \<Rightarrow> promise \<Rightarrow> settle" where
  "promise_state w p =
     (case p of
        Immediate h \<Rightarrow> Fulfilled h
      | OfLoad lid \<Rightarrow> (if lid < length (loads w) then l_state (loads w ! lid) else Pending))"

text \<open>
  \<open>Promise.allSettled\<close>: pending (\<open>None\<close>) while an input is pending, then fulfilled with
  one outcome per input, in the order of the inputs.
\<close>

fun outcome_of :: "settle \<Rightarrow> outcome option" where
  "outcome_of Pending = None"
| "outcome_of (Fulfilled h) = Some (OFulfilled h)"
| "outcome_of (Rejected e) = Some (ORejected e)"

fun allSettled :: "settle list \<Rightarrow> outcome list option" where
  "allSettled [] = Some []"
| "allSettled (s # ss) =
     (case outcome_of s of
        None \<Rightarrow> None
      | Some x \<Rightarrow> (case allSettled ss of None \<Rightarrow> None | Some xs \<Rightarrow> Some (x # xs)))"

definition batch_result :: "world \<Rightarrow> nat \<Rightarrow> outcome list option" where
  "batch_result w bid =
     (if bid < length (batches w)
      then allSettled (map (promise_state w) (b_slots (batches w ! bid)))
      else None)"

definition get :: "string \<Rightarrow> world \<Rightarrow> element option" where
  "get src w = map_of (cache w) src"

definition isCached :: "string \<Rightarrow> world \<Rightarrow> bool" where
  "isCached src w \<longleftrightarrow> map_of (cache w) src \<noteq> None"

subsection \<open>Promise reactions\<close>

text \<open>
  \<open>promise.catch(() => console.warn(warning))\<close>: the handler runs when the promise is
  rejected, and never for a fulfilled one.
\<close>

definition catch_warn :: "promise \<Rightarrow> string \<Rightarrow> world \<Rightarrow> world" where
  "catch_warn p warning w =
     (case p of
        Immediate h \<Rightarrow> w
      | OfLoad lid \<Rightarrow>
          (case l_state (loads w ! lid) of
             Pending \<Rightarrow> w\<lparr>loads := (loads w)[lid := (loads w ! lid)\<lparr>l_catch := Some warning\<rparr>]\<rparr>
           | Fulfilled h \<Rightarrow> w
           | Rejected e \<Rightarrow> w\<lparr>console := console w @ [warning]\<rparr>))"

text \<open>
  The \<open>.then\<close> callback of \<open>initializeProjectGallery\<close>, and the microtask checkpoint that
  runs it once the \<open>allSettled\<close> promise it hangs on is fulfilled.
\<close>

definition then_callback :: "string list \<Rightarrow> world \<Rightarrow> world" where
  "then_callback images w =
     (let remainingImages = drop 5 images in
      if length remainingImages > 0 then snd (preloadAll remainingImages w) else w)"

definition fire_batch :: "nat \<Rightarrow> world \<Rightarrow> world" where
  "fire_batch bid w =
     (case b_then (batches w ! bid) of
        None \<Rightarrow> w
      | Some images \<Rightarrow>
          (case batch_result w bid of
             None \<Rightarrow> w
           | Some outs \<Rightarrow>
               then_callback images
                 (w\<lparr>batches := (batches w)[bid := (batches w ! bid)\<lparr>b_then := None\<rparr>]\<rparr>)))"

definition microtasks :: "world \<Rightarrow> world" where
  "microtasks w = fold fire_batch [0..<length (batches w)] w"

definition initializeProjectGallery :: "string list \<Rightarrow> world \<Rightarrow> world" where
  "initializeProjectGallery images w =
     (let visibleImages = take 5 images;
          (bid, w1) = preloadAll visibleImages w
      in w1\<lparr>batches := (batches w1)[bid := (batches w1 ! bid)\<lparr>b_then := Some images\<rparr>]\<rparr>)"

subsection \<open>Document and timers\<close>

text \<open>\<open>document.querySelector('.preview-overlay')\<close>: the first such element of the document.\<close>

definition querySelector :: "world \<Rightarrow> nat option" where
  "querySelector w =
     find (\<lambda>oid. oid < length (nodes w) \<and> ''preview-overlay'' \<in> set (ov_classes (nodes w ! oid)))
       (document w)"

definition addEventListener :: "listener \<Rightarrow> world \<Rightarrow> world" where
  "addEventListener l w =
     w\<lparr>listeners := (if l \<in> set (listeners w) then listeners w else listeners w @ [l])\<rparr>"

definition removeEventListener :: "listener \<Rightarrow> world \<Rightarrow> world" where
  "removeEventListener l w = w\<lparr>listeners := remove1 l (listeners w)\<rparr>"

text \<open>\<open>element.remove()\<close>.\<close>

definition remove_node :: "nat \<Rightarrow> world \<Rightarrow> world" where
  "remove_node oid w = w\<lparr>document := remove1 oid (document w)\<rparr>"

definition update_node :: "nat \<Rightarrow> (overlay \<Rightarrow> overlay) \<Rightarrow> world \<Rightarrow> world" where
  "update_node oid f w = w\<lparr>nodes := (nodes w)[oid := f (nodes w ! oid)]\<rparr>"

text \<open>
  Timers run by due time, and in the order of their \<open>setTimeout\<close> calls when due together.
\<close>

fun enqueue :: "nat \<times> timer_action \<Rightarrow> (nat \<times> timer_action) list \<Rightarrow> (nat \<times> timer_action) list" where
  "enqueue t [] = [t]"
| "enqueue t (u # us) = (if fst u \<le> fst t then u # enqueue t us else t # u # us)"

definition setTimeout :: "nat \<Rightarrow> timer_action \<Rightarrow> world \<Rightarrow> world" where
  "setTimeout delay a w = w\<lparr>timers := enqueue (now w + delay, a) (timers w)\<rparr>"

subsection \<open>showPreview and its closures\<close>

text \<open>The markup of the \<open>onerror\<close> closure, the Chinese text in UTF-8.\<close>

definition failure_markup :: "string \<Rightarrow> string" where
  \<open>failure_markup src =
     [CHR 0x0A] @ ''            <div style="color: white; text-align: center;">'' @
     [CHR 0x0A] @ ''                '' @
     [CHR 0xE5, CHR 0x8A, CHR 0xA0, CHR 0xE8, CHR 0xBD, CHR 0xBD, CHR 0xE5, CHR 0xA4, CHR 0xB1, CHR 0xE8, CHR 0xB4, CHR 0xA5, CHR 0xEF, CHR 0xBC, CHR 0x8C, CHR 0xE8, CHR 0xAF, CHR 0xB7, CHR 0xE9, CHR 0x87, CHR 0x8D, CHR 0xE8, CHR 0xAF, CHR 0x95] @
     ''<br>'' @
     [CHR 0x0A] @ ''                <small style="opacity: 0.7;">Failed to load: '' @ src @ ''</small>'' @
     [CHR 0x0A] @ ''            </div>'' @
     [CHR 0x0A] @ ''        ''\<close>

definition cleanup :: "nat \<Rightarrow> world \<Rightarrow> world" where
  "cleanup oid w =
     remove_node oid
       (removeEventListener (KeyNavHandler oid) (removeEventListener (EscHandler oid) w))"

definition closePreview :: "nat \<Rightarrow> world \<Rightarrow> world" where
  "closePreview oid w =
     setTimeout 300 (Cleanup oid)
       (update_node oid (\<lambda>ov. ov\<lparr>ov_classes := classList_remove ''active'' (ov_classes ov)\<rparr>) w)"

definition loadHandler :: "nat \<Rightarrow> world \<Rightarrow> world" where
  "loadHandler oid w =
     update_node oid
       (\<lambda>ov. ov\<lparr>ov_classes := classList_add ''active'' (classList_remove ''loading'' (ov_classes ov))\<rparr>) w"

definition content_onerror :: "nat \<Rightarrow> string \<Rightarrow> world \<Rightarrow> world" where
  "content_onerror oid src w =
     setTimeout 2000 (Cleanup oid)
       (update_node oid (\<lambda>ov. ov\<lparr>ov_contents := Markup (failure_markup src)\<rparr>) w)"

text \<open>\<open>overlay.onclick\<close>; the flag says whether \<open>e.target === overlay\<close>.\<close>

definition overlay_onclick :: "nat \<Rightarrow> bool \<Rightarrow> world \<Rightarrow> world" where
  "overlay_onclick oid target_is_overlay w = (if target_is_overlay then closePreview oid w else w)"

definition escHandler :: "nat \<Rightarrow> string \<Rightarrow> world \<Rightarrow> world" where
  "escHandler oid key w = (if key = ''Escape'' then closePreview oid w else w)"

text \<open>
  \<open>overlay.keyNavHandler\<close>, with the global \<open>archProjectImages\<close> as the parameter
  \<open>gallery\<close> and the captured \<open>src\<close> as a parameter. (\<open>e.preventDefault()\<close> acts on the
  event object only.)
\<close>

definition keyNavHandler :: "string list \<Rightarrow> nat \<Rightarrow> string \<Rightarrow> string \<Rightarrow> world \<Rightarrow> world" where
  "keyNavHandler gallery oid src key w =
     (if key = ''ArrowLeft'' \<or> key = ''ArrowRight''
      then (let direction = (if key = ''ArrowLeft'' then - 1 else 1);
                currentIndex = indexOf gallery src;
                newIndex = js_rem (currentIndex + direction + int (length gallery)) (int (length gallery))
            in setTimeout 300 (ShowProjectImages newIndex) (closePreview oid w))
      else w)"

text \<open>Lines 62 to 67 of \<open>showPreview\<close>: the existing overlay and its listeners go.\<close>

definition teardown_existing :: "world \<Rightarrow> world" where
  "teardown_existing w =
     (case querySelector w of
        None \<Rightarrow> w
      | Some existingOverlay \<Rightarrow>
          remove_node existingOverlay
            (removeEventListener (KeyNavHandler existingOverlay)
               (removeEventListener (EscHandler existingOverlay) w)))"

definition showPreview :: "string \<Rightarrow> bool \<Rightarrow> world \<Rightarrow> world" where
  "showPreview src isVideo w =
     (let w1 = teardown_existing w;
          oid = length (nodes w1);
          content = Content (if isVideo then Video else Image) src;
          ov = \<lparr>ov_classes = [''preview-overlay'', ''loading''],
                ov_contents = Elements [Loader, content], ov_src = src, ov_video = isVideo\<rparr>;
          w2 = w1\<lparr>nodes := nodes w1 @ [ov]\<rparr>;
          w3 = addEventListener (KeyNavHandler oid) (addEventListener (EscHandler oid) w2)
      in w3\<lparr>document := document w3 @ [oid]\<rparr>)"

subsection \<open>showProjectImages and the exported entry point\<close>

text \<open>
  \<open>src.endsWith\<close> on \<open>undefined\<close> throws a \<open>TypeError\<close> before anything is changed. After
  that line \<open>index\<close> is a position of \<open>images\<close>, so \<open>nextIndex\<close> is one too, and the last
  branch of the inner \<open>case\<close> is never taken (lemma \<open>next_index_defined\<close>).
\<close>

definition showProjectImages :: "int option \<Rightarrow> string list \<Rightarrow> world \<Rightarrow> js_error + world" where
  "showProjectImages index images w =
     (case js_index images index of
        None \<Rightarrow> Inl TypeError
      | Some src \<Rightarrow>
          (let isVideo = endsWith src ''.mp4'' \<or> endsWith src ''.webm'';
               w1 = showPreview src isVideo w;
               nextIndex = (case index of None \<Rightarrow> None | Some i \<Rightarrow> js_rem (i + 1) (int (length images)))
           in if nextIndex \<noteq> index
              then (case js_index images nextIndex of
                      Some nextSrc \<Rightarrow>
                        (let (p, w2) = preload nextSrc w1 in
                         Inr (catch_warn p (''Failed to preload: '' @ nextSrc) w2))
                    | None \<Rightarrow> Inl TypeError)
              else Inr w1))"

definition showArchProjectImages :: "int \<Rightarrow> world \<Rightarrow> js_error + world" where
  "showArchProjectImages index w = showProjectImages (Some index) archProjectImages w"

subsection \<open>Events\<close>

text \<open>
  What the browser can do to the script: fire \<open>DOMContentLoaded\<close>, call the exported
  function, dispatch a keydown to the document, dispatch a click to an overlay, fire the
  load or error signal of an overlay's content element or of a preload's element, and let
  time pass. An exception leaving a callback is reported and the callback's task ends.
\<close>

datatype event =
    DOMContentLoaded
  | CallShowArch int
  | KeyDown string
  | Click nat bool
  | ContentLoad nat
  | ContentError nat
  | PreloadLoad nat
  | PreloadError nat
  | Elapse nat

definition run_callback :: "(world \<Rightarrow> js_error + world) \<Rightarrow> world \<Rightarrow> world" where
  "run_callback f w = (case f w of Inl e \<Rightarrow> w\<lparr>uncaught := uncaught w @ [e]\<rparr> | Inr w' \<Rightarrow> w')"

definition run_listener :: "string list \<Rightarrow> string \<Rightarrow> listener \<Rightarrow> world \<Rightarrow> world" where
  "run_listener gallery key l w =
     (case l of
        EscHandler oid \<Rightarrow> escHandler oid key w
      | KeyNavHandler oid \<Rightarrow> keyNavHandler gallery oid (ov_src (nodes w ! oid)) key w)"

definition run_timer :: "string list \<Rightarrow> timer_action \<Rightarrow> world \<Rightarrow> world" where
  "run_timer gallery a w =
     (case a of
        Cleanup oid \<Rightarrow> cleanup oid w
      | ShowProjectImages newIndex \<Rightarrow> run_callback (showProjectImages newIndex gallery) w)"

definition fire :: "string list \<Rightarrow> nat \<times> timer_action \<Rightarrow> world \<Rightarrow> world" where
  "fire gallery t w = run_timer gallery (snd t) (w\<lparr>now := fst t\<rparr>)"

text \<open>
  \<open>d\<close> milliseconds pass: the timers due by then run in order. No timer callback of the
  script sets a timer (lemma \<open>timers_run_timer\<close>), so the due ones are known beforehand.
\<close>

definition elapse :: "string list \<Rightarrow> nat \<Rightarrow> world \<Rightarrow> world" where
  "elapse gallery d w =
     (let t = now w + d;
          due = takeWhile (\<lambda>u. fst u \<le> t) (timers w);
          later = dropWhile (\<lambda>u. fst u \<le> t) (timers w)
      in (fold (fire gallery) due (w\<lparr>timers := later\<rparr>))\<lparr>now := t\<rparr>)"

definition handle :: "string list \<Rightarrow> event \<Rightarrow> world \<Rightarrow> world" where
  "handle gallery ev w =
     (case ev of
        DOMContentLoaded \<Rightarrow> initializeProjectGallery gallery w
      | CallShowArch index \<Rightarrow> run_callback (showProjectImages (Some index) gallery) w
      | KeyDown key \<Rightarrow> fold (run_listener gallery key) (listeners w) w
      | Click oid target_is_overlay \<Rightarrow>
          (if oid < length (nodes w) then overlay_onclick oid target_is_overlay w else w)
      | ContentLoad oid \<Rightarrow> (if oid < length (nodes w) then loadHandler oid w else w)
      | ContentError oid \<Rightarrow>
          (if oid < length (nodes w) then content_onerror oid (ov_src (nodes w ! oid)) w else w)
      | PreloadLoad lid \<Rightarrow> preload_onload lid w
      | PreloadError lid \<Rightarrow> preload_onerror lid w
      | Elapse d \<Rightarrow> elapse gallery d w)"

definition step :: "string list \<Rightarrow> event \<Rightarrow> world \<Rightarrow> world" where
  "step gallery ev w = microtasks (handle gallery ev w)"

definition run :: "string list \<Rightarrow> event list \<Rightarrow> world \<Rightarrow> world" where
  "run gallery evs w = fold (step gallery) evs w"

subsection \<open>Predicates of the statements and of the proofs\<close>

text \<open>
  The events that settle the promise of a load.
\<close>

fun is_signal :: "event \<Rightarrow> bool" where
  "is_signal (PreloadLoad l) = True"
| "is_signal (PreloadError l) = True"
| "is_signal _ = False"

text \<open>
  The classification as the specification words it: an identifier is a video when it
  ends in \<open>.mp4\<close> or \<open>.webm\<close>, and an image otherwise. The script has no such function; it
  writes the test out in \<open>preload\<close> and again in \<open>showProjectImages\<close>.
\<close>

definition media_class :: "string \<Rightarrow> media" where
  "media_class ident = (if suffix ''.mp4'' ident \<or> suffix ''.webm'' ident then Video else Image)"

text \<open>
  The single-overlay invariant: the document holds at most one overlay, every overlay of
  the document exists and the keydown listeners are those of the overlays of the
  document, in order; every overlay ever created carries the class \<open>preview-overlay\<close>.
\<close>

definition overlay_inv :: "world \<Rightarrow> bool" where
  "overlay_inv w \<longleftrightarrow>
     length (document w) \<le> 1 \<and>
     list_all (\<lambda>oid. oid < length (nodes w)) (document w) \<and>
     listeners w = concat (map (\<lambda>oid. [EscHandler oid, KeyNavHandler oid]) (document w)) \<and>
     list_all (\<lambda>ov. ''preview-overlay'' \<in> set (ov_classes ov)) (nodes w)"

text \<open>
  A timer callback that does not throw when the gallery has \<open>n\<close> items.
\<close>

fun valid_action :: "nat \<Rightarrow> timer_action \<Rightarrow> bool" where
  "valid_action n (Cleanup oid) = True"
| "valid_action n (ShowProjectImages None) = False"
| "valid_action n (ShowProjectImages (Some i)) = (0 \<le> i \<and> i < int n)"

text \<open>
  An event whose call of the exported function, if it is one, is within the \<open>n\<close> items
  of the gallery.
\<close>

fun valid_event :: "nat \<Rightarrow> event \<Rightarrow> bool" where
  "valid_event n (CallShowArch i) = (0 \<le> i \<and> i < int n)"
| "valid_event n ev = True"

text \<open>
  Nothing was thrown so far and no pending timer will throw.
\<close>

definition no_throw :: "nat \<Rightarrow> world \<Rightarrow> bool" where
  "no_throw n w \<longleftrightarrow> uncaught w = [] \<and> list_all (\<lambda>t. valid_action n (snd t)) (timers w)"

text \<open>
  The pending timers are in the order of their due times, all of them in the future.
\<close>

definition timers_inv :: "world \<Rightarrow> bool" where
  "timers_inv w \<longleftrightarrow> sorted (map fst (timers w)) \<and> list_all (\<lambda>t. now w < fst t) (timers w)"

text \<open>
  The time that passes during a sequence of events.
\<close>

fun elapsed :: "event list \<Rightarrow> nat" where
  "elapsed [] = 0"
| "elapsed (Elapse d # es) = d + elapsed es"
| "elapsed (ev # es) = elapsed es"

text \<open>
  The overlay \<open>oid\<close> exists and is out of the document, in a state that satisfies the
  single-overlay invariant (so its listeners are detached too).
\<close>

definition gone :: "nat \<Rightarrow> world \<Rightarrow> bool" where
  "gone oid w \<longleftrightarrow> overlay_inv w \<and> oid < length (nodes w) \<and> oid \<notin> set (document w)"

text \<open>
  An outcome that speaks of the identifier \<open>src\<close>: fulfilled with an element loaded from
  \<open>src\<close>, or rejected with a load-failure message naming \<open>src\<close>.
\<close>

fun outcome_for :: "string \<Rightarrow> outcome \<Rightarrow> bool" where
  "outcome_for src (OFulfilled h) \<longleftrightarrow> el_src h = src"
| "outcome_for src (ORejected e) \<longleftrightarrow>
     e = ''Failed to load video: '' @ src \<or> e = ''Failed to load image: '' @ src"

text \<open>
  A settled load is fulfilled with an element of its own identifier, or rejected with a
  load-failure message naming its identifier.
\<close>

definition load_ok :: "load \<Rightarrow> bool" where
  "load_ok l \<longleftrightarrow> (case outcome_of (l_state l) of None \<Rightarrow> True | Some x \<Rightarrow> outcome_for (l_src l) x)"

text \<open>
  Every cached element was loaded from the identifier it is cached under, and every load
  is settled as \<open>load_ok\<close> says.
\<close>

definition store_ok :: "world \<Rightarrow> bool" where
  "store_ok w \<longleftrightarrow> list_all (\<lambda>e. el_src (snd e) = fst e) (cache w) \<and> list_all load_ok (loads w)"

text \<open>
  A promise that belongs to the identifier \<open>src\<close>.
\<close>

fun slot_ok :: "world \<Rightarrow> string \<Rightarrow> promise \<Rightarrow> bool" where
  "slot_ok w src (Immediate h) \<longleftrightarrow> el_src h = src"
| "slot_ok w src (OfLoad lid) \<longleftrightarrow> lid < length (loads w) \<and> l_src (loads w ! lid) = src"

section \<open>Properties\<close>

subsection \<open>The JavaScript primitives\<close>

lemma endsWith_iff: "endsWith s suf \<longleftrightarrow> (\<exists>p. s = p @ suf)"
proof
  assume "endsWith s suf"
  then have "s = take (length s - length suf) s @ suf"
    by (metis append_take_drop_id endsWith_def)
  then show "\<exists>p. s = p @ suf" ..
next
  assume "\<exists>p. s = p @ suf"
  then show "endsWith s suf" by (auto simp: endsWith_def)
qed

lemma indexOf_absent: "x \<notin> set xs \<Longrightarrow> indexOf xs x = - 1"
  by (induction xs) (auto simp: Let_def)


lemma indexOf_ge: "- 1 \<le> indexOf xs x"
  by (induction xs) (auto simp: Let_def)

lemma indexOf_distinct: "distinct xs \<Longrightarrow> i < length xs \<Longrightarrow> indexOf xs (xs ! i) = int i"
proof (induction xs arbitrary: i)
  case Nil
  then show ?case by simp
next
  case (Cons y ys)
  show ?case
  proof (cases i)
    case 0
    then show ?thesis by simp
  next
    case (Suc j)
    with Cons.prems have j: "j < length ys" and d: "distinct ys" and ny: "y \<notin> set ys" by auto
    from j ny have "ys ! j \<noteq> y" by (metis nth_mem)
    with Cons.IH [OF d j] Suc show ?thesis by (simp add: Let_def)
  qed
qed

lemma js_rem_nonneg: "0 \<le> a \<Longrightarrow> 0 < b \<Longrightarrow> js_rem a b = Some (a mod b)"
  by (cases "a = 0") (simp_all add: js_rem_def)

lemma js_rem_small: "0 \<le> a \<Longrightarrow> a < b \<Longrightarrow> js_rem a b = Some a"
  by (cases "a = 0") (simp_all add: js_rem_def)

lemma js_rem_self: "0 < b \<Longrightarrow> js_rem b b = Some 0"
  by (simp add: js_rem_def)

subsection \<open>A cached identifier\<close>

text \<open>
  C2. For an identifier that is in the cache, \<open>preload\<close> returns a promise that is already
  fulfilled with the cached element, creates no load (no element, hence no network
  access), and leaves the cache, and the whole state, as it was.
\<close>

theorem preload_cached:
  "isCached src w \<Longrightarrow>
     (\<exists>h. get src w = Some h \<and> preload src w = (Immediate h, w) \<and>
          promise_state (snd (preload src w)) (fst (preload src w)) = Fulfilled h) \<and>
     loads (snd (preload src w)) = loads w \<and> cache (snd (preload src w)) = cache w"
  by (auto simp: isCached_def get_def preload_def promise_state_def)

theorem preload_cached_witness:
  "isCached ''b.jpg'' (run [''a.jpg'', ''b.jpg''] [CallShowArch 0, PreloadLoad 0] init) \<and>
   preload ''b.jpg'' (run [''a.jpg'', ''b.jpg''] [CallShowArch 0, PreloadLoad 0] init) =
     (Immediate \<lparr>el_kind = Image, el_src = ''b.jpg'', el_load = 0\<rparr>,
      run [''a.jpg'', ''b.jpg''] [CallShowArch 0, PreloadLoad 0] init)"
proof -
  have h: "isCached ''b.jpg'' (run [''a.jpg'', ''b.jpg''] [CallShowArch 0, PreloadLoad 0] init)"
    by code_simp
  have g: "get ''b.jpg'' (run [''a.jpg'', ''b.jpg''] [CallShowArch 0, PreloadLoad 0] init) =
      Some \<lparr>el_kind = Image, el_src = ''b.jpg'', el_load = 0\<rparr>"
    by code_simp
  from preload_cached [OF h] g h show ?thesis by auto
qed

subsection \<open>Arrow-key navigation\<close>



subsection \<open>What each operation leaves unchanged\<close>

lemmas prim_defs =
  addEventListener_def removeEventListener_def remove_node_def update_node_def setTimeout_def

lemma fold_invariant:
  assumes "\<And>x s. P s \<Longrightarrow> P (f x s)" and "P s"
  shows "P (fold f xs s)"
  using assms(2) by (induction xs arbitrary: s) (auto intro: assms(1))

lemma fold_invariant_set:
  assumes "\<And>x s. x \<in> set xs \<Longrightarrow> P s \<Longrightarrow> P (f x s)" and "P s"
  shows "P (fold f xs s)"
  using assms by (induction xs arbitrary: s) auto

lemma preload_frame [simp]:
  "cache (snd (preload src w)) = cache w"
  "batches (snd (preload src w)) = batches w"
  "nodes (snd (preload src w)) = nodes w"
  "document (snd (preload src w)) = document w"
  "listeners (snd (preload src w)) = listeners w"
  "timers (snd (preload src w)) = timers w"
  "now (snd (preload src w)) = now w"
  "console (snd (preload src w)) = console w"
  "uncaught (snd (preload src w)) = uncaught w"
  by (simp_all add: preload_def Let_def split: option.splits)

lemma preload_loads:
  "loads (snd (preload src w)) =
     loads w @ (case map_of (cache w) src of
                  Some h \<Rightarrow> []
                | None \<Rightarrow> [\<lparr>l_src = src,
                             l_kind = (if endsWith src ''.mp4'' \<or> endsWith src ''.webm'' then Video else Image),
                             l_state = Pending, l_catch = None\<rparr>])"
  by (simp add: preload_def Let_def split: option.splits)

lemma preload_promise:
  "fst (preload src w) =
     (case map_of (cache w) src of Some h \<Rightarrow> Immediate h | None \<Rightarrow> OfLoad (length (loads w)))"
  by (simp add: preload_def Let_def split: option.splits)

lemma preload_prefix: "prefix (loads w) (loads (snd (preload src w)))"
  by (simp add: preload_loads)

lemma preload_each_frame [simp]:
  "cache (snd (preload_each srcs w)) = cache w"
  "batches (snd (preload_each srcs w)) = batches w"
  "nodes (snd (preload_each srcs w)) = nodes w"
  "document (snd (preload_each srcs w)) = document w"
  "listeners (snd (preload_each srcs w)) = listeners w"
  "timers (snd (preload_each srcs w)) = timers w"
  "now (snd (preload_each srcs w)) = now w"
  "console (snd (preload_each srcs w)) = console w"
  "uncaught (snd (preload_each srcs w)) = uncaught w"
  by (induction srcs arbitrary: w; simp add: case_prod_unfold Let_def)+

lemma preload_each_prefix: "prefix (loads w) (loads (snd (preload_each srcs w)))"
proof (induction srcs arbitrary: w)
  case Nil
  then show ?case by simp
next
  case (Cons s srcs)
  have "prefix (loads w) (loads (snd (preload s w)))" by (rule preload_prefix)
  also have "prefix \<dots> (loads (snd (preload_each srcs (snd (preload s w)))))" by (rule Cons.IH)
  finally show ?case by (simp add: case_prod_unfold Let_def)
qed

lemma preload_each_length [simp]: "length (fst (preload_each srcs w)) = length srcs"
  by (induction srcs arbitrary: w) (simp_all add: case_prod_unfold Let_def)

lemma preloadAll_frame [simp]:
  "cache (snd (preloadAll srcs w)) = cache w"
  "nodes (snd (preloadAll srcs w)) = nodes w"
  "document (snd (preloadAll srcs w)) = document w"
  "listeners (snd (preloadAll srcs w)) = listeners w"
  "timers (snd (preloadAll srcs w)) = timers w"
  "now (snd (preloadAll srcs w)) = now w"
  "console (snd (preloadAll srcs w)) = console w"
  "uncaught (snd (preloadAll srcs w)) = uncaught w"
  by (simp_all add: preloadAll_def case_prod_unfold Let_def)

lemma preloadAll_batches:
  "batches (snd (preloadAll srcs w)) =
     batches w @ [\<lparr>b_slots = fst (preload_each srcs w), b_then = None\<rparr>]"
  "fst (preloadAll srcs w) = length (batches w)"
  "loads (snd (preloadAll srcs w)) = loads (snd (preload_each srcs w))"
  by (simp_all add: preloadAll_def case_prod_unfold Let_def)

lemma catch_warn_frame [simp]:
  "cache (catch_warn p m w) = cache w"
  "batches (catch_warn p m w) = batches w"
  "nodes (catch_warn p m w) = nodes w"
  "document (catch_warn p m w) = document w"
  "listeners (catch_warn p m w) = listeners w"
  "timers (catch_warn p m w) = timers w"
  "now (catch_warn p m w) = now w"
  "uncaught (catch_warn p m w) = uncaught w"
  by (simp_all add: catch_warn_def split: promise.splits settle.splits)

lemma then_callback_frame [simp]:
  "cache (then_callback images w) = cache w"
  "nodes (then_callback images w) = nodes w"
  "document (then_callback images w) = document w"
  "listeners (then_callback images w) = listeners w"
  "timers (then_callback images w) = timers w"
  "now (then_callback images w) = now w"
  "console (then_callback images w) = console w"
  "uncaught (then_callback images w) = uncaught w"
  by (simp_all add: then_callback_def Let_def)

lemma fire_batch_frame [simp]:
  "cache (fire_batch bid w) = cache w"
  "nodes (fire_batch bid w) = nodes w"
  "document (fire_batch bid w) = document w"
  "listeners (fire_batch bid w) = listeners w"
  "timers (fire_batch bid w) = timers w"
  "now (fire_batch bid w) = now w"
  "console (fire_batch bid w) = console w"
  "uncaught (fire_batch bid w) = uncaught w"
  by (simp_all add: fire_batch_def split: option.splits)

lemma microtasks_frame [simp]:
  "cache (microtasks w) = cache w"
  "nodes (microtasks w) = nodes w"
  "document (microtasks w) = document w"
  "listeners (microtasks w) = listeners w"
  "timers (microtasks w) = timers w"
  "now (microtasks w) = now w"
  "console (microtasks w) = console w"
  "uncaught (microtasks w) = uncaught w"
  unfolding microtasks_def
  by (rule fold_invariant [where P = "\<lambda>s. cache s = cache w"]
           fold_invariant [where P = "\<lambda>s. nodes s = nodes w"]
           fold_invariant [where P = "\<lambda>s. document s = document w"]
           fold_invariant [where P = "\<lambda>s. listeners s = listeners w"]
           fold_invariant [where P = "\<lambda>s. timers s = timers w"]
           fold_invariant [where P = "\<lambda>s. now s = now w"]
           fold_invariant [where P = "\<lambda>s. console s = console w"]
           fold_invariant [where P = "\<lambda>s. uncaught s = uncaught w"]; simp)+

lemma initializeProjectGallery_frame [simp]:
  "cache (initializeProjectGallery images w) = cache w"
  "nodes (initializeProjectGallery images w) = nodes w"
  "document (initializeProjectGallery images w) = document w"
  "listeners (initializeProjectGallery images w) = listeners w"
  "timers (initializeProjectGallery images w) = timers w"
  "now (initializeProjectGallery images w) = now w"
  "console (initializeProjectGallery images w) = console w"
  "uncaught (initializeProjectGallery images w) = uncaught w"
  by (simp_all add: initializeProjectGallery_def Let_def case_prod_unfold)

lemmas ui_defs =
  cleanup_def closePreview_def loadHandler_def content_onerror_def overlay_onclick_def
  escHandler_def keyNavHandler_def

lemma catch_warn_preload:
  "catch_warn (fst (preload s w)) m (snd (preload s w)) =
     (case map_of (cache w) s of
        Some h \<Rightarrow> w
      | None \<Rightarrow>
          w\<lparr>loads := loads w @ [\<lparr>l_src = s,
                 l_kind = (if endsWith s ''.mp4'' \<or> endsWith s ''.webm'' then Video else Image),
                 l_state = Pending, l_catch = Some m\<rparr>]\<rparr>)"
  by (simp add: preload_def catch_warn_def Let_def nth_append split: option.splits)

lemma teardown_existing_frame [simp]:
  "cache (teardown_existing w) = cache w"
  "loads (teardown_existing w) = loads w"
  "batches (teardown_existing w) = batches w"
  "nodes (teardown_existing w) = nodes w"
  "timers (teardown_existing w) = timers w"
  "now (teardown_existing w) = now w"
  "console (teardown_existing w) = console w"
  "uncaught (teardown_existing w) = uncaught w"
  by (simp_all add: teardown_existing_def prim_defs split: option.splits)

lemma showPreview_frame [simp]:
  "cache (showPreview src v w) = cache w"
  "loads (showPreview src v w) = loads w"
  "batches (showPreview src v w) = batches w"
  "timers (showPreview src v w) = timers w"
  "now (showPreview src v w) = now w"
  "console (showPreview src v w) = console w"
  "uncaught (showPreview src v w) = uncaught w"
  by (simp_all add: showPreview_def Let_def prim_defs)

lemma showPreview_nodes:
  "nodes (showPreview src v w) =
     nodes w @ [\<lparr>ov_classes = [''preview-overlay'', ''loading''],
                 ov_contents = Elements [Loader, Content (if v then Video else Image) src],
                 ov_src = src, ov_video = v\<rparr>]"
  by (simp add: showPreview_def Let_def prim_defs)

lemma next_index_defined:
  assumes "0 \<le> i" and "i < int (length images)"
  shows "js_rem (i + 1) (int (length images)) = Some ((i + 1) mod int (length images))"
    and "js_index images (Some ((i + 1) mod int (length images))) =
           Some (images ! nat ((i + 1) mod int (length images)))"
proof -
  from assms have p: "0 < int (length images)" and q: "0 \<le> i + 1" by linarith+
  show "js_rem (i + 1) (int (length images)) = Some ((i + 1) mod int (length images))"
    by (rule js_rem_nonneg [OF q p])
  from p have "0 \<le> (i + 1) mod int (length images)" "(i + 1) mod int (length images) < int (length images)"
    by (simp_all del: of_nat_0_less_iff)
  then show "js_index images (Some ((i + 1) mod int (length images))) =
           Some (images ! nat ((i + 1) mod int (length images)))"
    by simp
qed

lemma showProjectImages_valid:
  assumes "0 \<le> i" and "i < int (length images)"
  shows "showProjectImages (Some i) images w =
     Inr (let src = images ! nat i;
              w1 = showPreview src (endsWith src ''.mp4'' \<or> endsWith src ''.webm'') w;
              nextSrc = images ! nat ((i + 1) mod int (length images))
          in if (i + 1) mod int (length images) = i then w1
             else catch_warn (fst (preload nextSrc w1)) (''Failed to preload: '' @ nextSrc)
                    (snd (preload nextSrc w1)))"
  using assms next_index_defined [OF assms]
  by (simp add: showProjectImages_def Let_def case_prod_unfold)

lemma showProjectImages_invalid:
  "\<not> (0 \<le> i \<and> i < int (length images)) \<Longrightarrow> showProjectImages (Some i) images w = Inl TypeError"
  "showProjectImages None images w = Inl TypeError"
  by (auto simp: showProjectImages_def)

lemma showProjectImages_cases:
  "showProjectImages index images w = Inl TypeError \<or>
   (\<exists>i. index = Some i \<and> 0 \<le> i \<and> i < int (length images) \<and>
        showProjectImages index images w =
          Inr (let src = images ! nat i;
              w1 = showPreview src (endsWith src ''.mp4'' \<or> endsWith src ''.webm'') w;
              nextSrc = images ! nat ((i + 1) mod int (length images))
          in if (i + 1) mod int (length images) = i then w1
             else catch_warn (fst (preload nextSrc w1)) (''Failed to preload: '' @ nextSrc)
                    (snd (preload nextSrc w1))))"
proof (cases index)
  case None
  then show ?thesis by (simp add: showProjectImages_invalid)
next
  case (Some i)
  show ?thesis
  proof (cases "0 \<le> i \<and> i < int (length images)")
    case True
    then show ?thesis using Some showProjectImages_valid [of i images w] by blast
  next
    case False
    then show ?thesis using Some by (simp add: showProjectImages_invalid)
  qed
qed

lemma showProjectImages_frame:
  assumes "showProjectImages index images w = Inr w'"
  shows "cache w' = cache w" "batches w' = batches w" "timers w' = timers w" "now w' = now w"
    "console w' = console w" "uncaught w' = uncaught w"
    "prefix (loads w) (loads w')"
  using showProjectImages_cases [of index images w] assms
  by (auto simp: Let_def catch_warn_preload split: if_splits option.splits)

subsection \<open>Loads are only ever added, and settle once\<close>

lemma then_callback_prefix: "prefix (loads w) (loads (then_callback images w))"
  by (simp add: then_callback_def Let_def preloadAll_batches preload_each_prefix)

lemma fire_batch_prefix: "prefix (loads w) (loads (fire_batch bid w))"
proof -
  have "prefix (loads (w\<lparr>batches := bs\<rparr>)) (loads (then_callback images (w\<lparr>batches := bs\<rparr>)))"
    for bs images by (rule then_callback_prefix)
  then show ?thesis by (simp add: fire_batch_def split: option.splits)
qed

lemma microtasks_prefix: "prefix (loads w) (loads (microtasks w))"
  unfolding microtasks_def
proof (rule fold_invariant [where P = "\<lambda>s::world. prefix (loads w) (loads s)"])
  fix x and s :: world assume "prefix (loads w) (loads s)"
  then show "prefix (loads w) (loads (fire_batch x s))"
    using fire_batch_prefix prefix_order.trans by blast
qed simp

lemma initializeProjectGallery_prefix: "prefix (loads w) (loads (initializeProjectGallery images w))"
  by (simp add: initializeProjectGallery_def Let_def case_prod_unfold preloadAll_batches preload_each_prefix)

lemma run_callback_show_prefix:
  "prefix (loads w) (loads (run_callback (showProjectImages index images) w))"
  by (auto simp: run_callback_def split: sum.splits dest: showProjectImages_frame(7))

lemma run_listener_loads [simp]: "loads (run_listener g key l w) = loads w"
  by (simp add: run_listener_def ui_defs prim_defs Let_def split: listener.splits)

lemma run_timer_prefix: "prefix (loads w) (loads (run_timer g a w))"
  by (cases a) (simp_all add: run_timer_def ui_defs prim_defs run_callback_show_prefix)

lemma fire_prefix: "prefix (loads w) (loads (fire g t w))"
  using run_timer_prefix [of "w\<lparr>now := fst t\<rparr>" g "snd t"] by (simp add: fire_def)

lemma elapse_prefix: "prefix (loads w) (loads (elapse g d w))"
proof -
  have "prefix (loads w) (loads (fold (fire g) ts (w\<lparr>timers := later\<rparr>)))" for ts later
  proof (rule fold_invariant [where P = "\<lambda>s::world. prefix (loads w) (loads s)"])
    fix x and s :: world assume "prefix (loads w) (loads s)"
    then show "prefix (loads w) (loads (fire g x s))"
      using fire_prefix prefix_order.trans by blast
  qed simp
  then show ?thesis by (simp add: elapse_def Let_def)
qed

lemma handle_prefix: "\<not> is_signal ev \<Longrightarrow> prefix (loads w) (loads (handle g ev w))"
proof (cases ev)
  case (KeyDown key)
  have "loads (fold (run_listener g key) ls w) = loads w" for ls
    by (rule fold_invariant [where P = "\<lambda>s::world. loads s = loads w"]) simp_all
  then show ?thesis using KeyDown by (simp add: handle_def)
qed (simp_all add: handle_def initializeProjectGallery_prefix run_callback_show_prefix
       elapse_prefix ui_defs prim_defs)

lemma nth_update_field:
  "f ((xs[i := g (xs ! i)]) ! j) = f (xs ! j)" if "\<And>x. f (g x) = f x"
proof (cases "i < length xs \<and> i = j")
  case True
  then show ?thesis by (simp add: that)
next
  case False
  then have "(xs[i := g (xs ! i)]) ! j = xs ! j"
    by (cases "i < length xs") (auto simp: list_update_beyond)
  then show ?thesis by simp
qed

lemma resolve_loads:
  "length (loads (resolve l h w)) = length (loads w)"
  "lid \<noteq> l \<Longrightarrow> loads (resolve l h w) ! lid = loads w ! lid"
  "l_src (loads (resolve l h w) ! lid) = l_src (loads w ! lid)"
  "l_kind (loads (resolve l h w) ! lid) = l_kind (loads w ! lid)"
  "l_catch (loads (resolve l h w) ! lid) = l_catch (loads w ! lid)"
  unfolding resolve_def
  by (simp_all add: nth_update_field [where g = "\<lambda>x. x\<lparr>l_state := Fulfilled h\<rparr>"])

lemma resolve_settled:
  "l_state (loads w ! lid) \<noteq> Pending \<Longrightarrow> l_state (loads (resolve l h w) ! lid) = l_state (loads w ! lid)"
  unfolding resolve_def by (cases "lid = l") simp_all

lemma reject_loads:
  "length (loads (reject l m w)) = length (loads w)"
  "lid \<noteq> l \<Longrightarrow> loads (reject l m w) ! lid = loads w ! lid"
  "l_src (loads (reject l m w) ! lid) = l_src (loads w ! lid)"
  "l_kind (loads (reject l m w) ! lid) = l_kind (loads w ! lid)"
  "l_catch (loads (reject l m w) ! lid) = l_catch (loads w ! lid)"
  unfolding reject_def
  by (simp_all add: Let_def nth_update_field [where g = "\<lambda>x. x\<lparr>l_state := Rejected m\<rparr>"]
        split: option.splits)

lemma reject_settled:
  "l_state (loads w ! lid) \<noteq> Pending \<Longrightarrow> l_state (loads (reject l m w) ! lid) = l_state (loads w ! lid)"
  unfolding reject_def by (cases "lid = l") (simp_all add: Let_def split: option.splits)

lemma preload_onload_loads:
  "length (loads (preload_onload l w)) = length (loads w)"
  "lid \<noteq> l \<Longrightarrow> loads (preload_onload l w) ! lid = loads w ! lid"
  "l_src (loads (preload_onload l w) ! lid) = l_src (loads w ! lid)"
  "l_kind (loads (preload_onload l w) ! lid) = l_kind (loads w ! lid)"
  "l_catch (loads (preload_onload l w) ! lid) = l_catch (loads w ! lid)"
  "l_state (loads w ! lid) \<noteq> Pending \<Longrightarrow> l_state (loads (preload_onload l w) ! lid) = l_state (loads w ! lid)"
  by (simp_all add: preload_onload_def Let_def resolve_loads resolve_settled)

lemma preload_onerror_loads:
  "length (loads (preload_onerror l w)) = length (loads w)"
  "lid \<noteq> l \<Longrightarrow> loads (preload_onerror l w) ! lid = loads w ! lid"
  "l_src (loads (preload_onerror l w) ! lid) = l_src (loads w ! lid)"
  "l_kind (loads (preload_onerror l w) ! lid) = l_kind (loads w ! lid)"
  "l_catch (loads (preload_onerror l w) ! lid) = l_catch (loads w ! lid)"
  "l_state (loads w ! lid) \<noteq> Pending \<Longrightarrow> l_state (loads (preload_onerror l w) ! lid) = l_state (loads w ! lid)"
  by (simp_all add: preload_onerror_def Let_def reject_loads reject_settled split: media.splits)

lemma prefix_nth: "prefix xs ys \<Longrightarrow> i < length xs \<Longrightarrow> i < length ys \<and> ys ! i = xs ! i"
  by (auto simp: prefix_def nth_append)

lemma handle_keeps_load:
  assumes "lid < length (loads w)" and "ev \<noteq> PreloadLoad lid" and "ev \<noteq> PreloadError lid"
  shows "lid < length (loads (handle g ev w)) \<and> loads (handle g ev w) ! lid = loads w ! lid"
proof (cases "is_signal ev")
  case True
  then show ?thesis using assms
    by (cases ev) (simp_all add: handle_def preload_onload_loads preload_onerror_loads)
next
  case False
  from prefix_nth [OF handle_prefix [OF False] assms(1)] show ?thesis .
qed

lemma step_keeps_load:
  assumes "lid < length (loads w)" and "ev \<noteq> PreloadLoad lid" and "ev \<noteq> PreloadError lid"
  shows "lid < length (loads (step g ev w)) \<and> loads (step g ev w) ! lid = loads w ! lid"
proof -
  from handle_keeps_load [OF assms]
  have h: "lid < length (loads (handle g ev w))" "loads (handle g ev w) ! lid = loads w ! lid"
    by simp_all
  from prefix_nth [OF microtasks_prefix h(1)] h(2) show ?thesis by (simp add: step_def)
qed

lemma run_keeps_load:
  assumes "list_all (\<lambda>ev. ev \<noteq> PreloadLoad lid \<and> ev \<noteq> PreloadError lid) es"
    and "lid < length (loads w)"
  shows "lid < length (loads (run g es w)) \<and> loads (run g es w) ! lid = loads w ! lid"
  using assms
proof (induction es arbitrary: w)
  case Nil
  then show ?case by (simp add: run_def)
next
  case (Cons ev es)
  from Cons.prems have e: "ev \<noteq> PreloadLoad lid" "ev \<noteq> PreloadError lid"
    and r: "list_all (\<lambda>ev. ev \<noteq> PreloadLoad lid \<and> ev \<noteq> PreloadError lid) es" by simp_all
  from step_keeps_load [OF Cons.prems(2) e]
  have s: "lid < length (loads (step g ev w))" "loads (step g ev w) ! lid = loads w ! lid" by simp_all
  from Cons.IH [OF r s(1)] s(2) show ?case by (simp add: run_def)
qed

lemma step_PreloadLoad:
  assumes "lid < length (loads w)" and "l_state (loads w ! lid) = Pending"
  shows "l_state (loads (step g (PreloadLoad lid) w) ! lid) =
           Fulfilled \<lparr>el_kind = l_kind (loads w ! lid), el_src = l_src (loads w ! lid), el_load = lid\<rparr>"
    and "cache (step g (PreloadLoad lid) w) =
           AList.update (l_src (loads w ! lid))
             \<lparr>el_kind = l_kind (loads w ! lid), el_src = l_src (loads w ! lid), el_load = lid\<rparr> (cache w)"
    and "lid < length (loads (step g (PreloadLoad lid) w))"
proof -
  have h: "lid < length (loads (handle g (PreloadLoad lid) w))"
    "l_state (loads (handle g (PreloadLoad lid) w) ! lid) =
           Fulfilled \<lparr>el_kind = l_kind (loads w ! lid), el_src = l_src (loads w ! lid), el_load = lid\<rparr>"
    using assms by (simp_all add: handle_def preload_onload_def Let_def resolve_def)
  from prefix_nth [OF microtasks_prefix h(1)] h(2)
  show "l_state (loads (step g (PreloadLoad lid) w) ! lid) =
           Fulfilled \<lparr>el_kind = l_kind (loads w ! lid), el_src = l_src (loads w ! lid), el_load = lid\<rparr>"
    and "lid < length (loads (step g (PreloadLoad lid) w))"
    by (simp_all add: step_def)
  show "cache (step g (PreloadLoad lid) w) =
           AList.update (l_src (loads w ! lid))
             \<lparr>el_kind = l_kind (loads w ! lid), el_src = l_src (loads w ! lid), el_load = lid\<rparr> (cache w)"
    using assms by (simp add: step_def handle_def preload_onload_def Let_def resolve_def)
qed

lemma step_PreloadError:
  assumes "lid < length (loads w)" and "l_state (loads w ! lid) = Pending"
  shows "l_state (loads (step g (PreloadError lid) w) ! lid) =
           Rejected ((case l_kind (loads w ! lid) of Video \<Rightarrow> ''Failed to load video: ''
                      | Image \<Rightarrow> ''Failed to load image: '') @ l_src (loads w ! lid))"
    and "cache (step g (PreloadError lid) w) = cache w"
    and "console (step g (PreloadError lid) w) =
           console w @ (case l_catch (loads w ! lid) of None \<Rightarrow> [] | Some m \<Rightarrow> [m])"
    and "uncaught (step g (PreloadError lid) w) = uncaught w"
    and "document (step g (PreloadError lid) w) = document w"
    and "lid < length (loads (step g (PreloadError lid) w))"
proof -
  have h: "lid < length (loads (handle g (PreloadError lid) w))"
    "l_state (loads (handle g (PreloadError lid) w) ! lid) =
           Rejected ((case l_kind (loads w ! lid) of Video \<Rightarrow> ''Failed to load video: ''
                      | Image \<Rightarrow> ''Failed to load image: '') @ l_src (loads w ! lid))"
    using assms
    by (simp_all add: handle_def preload_onerror_def Let_def reject_def split: media.splits option.splits)
  from prefix_nth [OF microtasks_prefix h(1)] h(2)
  show "l_state (loads (step g (PreloadError lid) w) ! lid) =
           Rejected ((case l_kind (loads w ! lid) of Video \<Rightarrow> ''Failed to load video: ''
                      | Image \<Rightarrow> ''Failed to load image: '') @ l_src (loads w ! lid))"
    and "lid < length (loads (step g (PreloadError lid) w))"
    by (simp_all add: step_def)
  show "cache (step g (PreloadError lid) w) = cache w"
    and "console (step g (PreloadError lid) w) =
           console w @ (case l_catch (loads w ! lid) of None \<Rightarrow> [] | Some m \<Rightarrow> [m])"
    and "uncaught (step g (PreloadError lid) w) = uncaught w"
    and "document (step g (PreloadError lid) w) = document w"
    using assms
    by (simp_all add: step_def handle_def preload_onerror_def Let_def reject_def
          split: media.splits option.splits)
qed

subsection \<open>An identifier that is not cached\<close>

lemma media_class_endsWith:
  "media_class src = (if endsWith src ''.mp4'' \<or> endsWith src ''.webm'' then Video else Image)"
  by (simp add: media_class_def endsWith_iff suffix_def)

lemma map_of_update_same: "map_of (AList.update k v al) k = Some v"
  by (simp add: update_conv')

text \<open>
  C4. For an identifier that is not in the cache, \<open>preload\<close> returns the pending promise of
  a new load and does not touch the cache. Whatever else happens meanwhile (any events
  \<open>es\<close> other than the two signals of that load), the promise stays pending; the load
  signal then fulfils it with the loaded element and stores that element in the cache
  under the identifier; the error signal rejects it with the load-failure message of the
  identifier's kind, which ends in the identifier, and leaves the cache as it is, so a
  failed load does not put the identifier into the cache.
\<close>

theorem preload_uncached:
  assumes "\<not> isCached src w"
    and "list_all (\<lambda>ev. ev \<noteq> PreloadLoad (length (loads w)) \<and> ev \<noteq> PreloadError (length (loads w))) es"
  shows "fst (preload src w) = OfLoad (length (loads w)) \<and>
         cache (snd (preload src w)) = cache w \<and>
         promise_state (run g es (snd (preload src w))) (OfLoad (length (loads w))) = Pending \<and>
         (\<exists>h. promise_state (step g (PreloadLoad (length (loads w))) (run g es (snd (preload src w))))
                 (OfLoad (length (loads w))) = Fulfilled h \<and>
              h = \<lparr>el_kind = media_class src, el_src = src, el_load = length (loads w)\<rparr> \<and>
              get src (step g (PreloadLoad (length (loads w))) (run g es (snd (preload src w)))) = Some h) \<and>
         (\<exists>e. promise_state (step g (PreloadError (length (loads w))) (run g es (snd (preload src w))))
                 (OfLoad (length (loads w))) = Rejected e \<and>
              e = (case media_class src of Video \<Rightarrow> ''Failed to load video: ''
                   | Image \<Rightarrow> ''Failed to load image: '') @ src \<and>
              cache (step g (PreloadError (length (loads w))) (run g es (snd (preload src w)))) =
                cache (run g es (snd (preload src w)))) \<and>
         \<not> isCached src (step g (PreloadError (length (loads w))) (snd (preload src w)))"
proof -
  let ?lid = "length (loads w)"
  let ?w1 = "snd (preload src w)"
  let ?w2 = "run g es ?w1"
  from assms(1) have nc: "map_of (cache w) src = None" by (simp add: isCached_def)
  have p: "fst (preload src w) = OfLoad ?lid" using nc by (simp add: preload_promise)
  have l1: "?lid < length (loads ?w1)" "l_src (loads ?w1 ! ?lid) = src" "l_state (loads ?w1 ! ?lid) = Pending"
    "l_kind (loads ?w1 ! ?lid) = media_class src"
    using nc by (simp_all add: preload_loads media_class_endsWith)
  from run_keeps_load [OF assms(2) l1(1), of g] l1
  have l2: "?lid < length (loads ?w2)" "l_src (loads ?w2 ! ?lid) = src" "l_state (loads ?w2 ! ?lid) = Pending"
    "l_kind (loads ?w2 ! ?lid) = media_class src"
    by simp_all
  have pend: "promise_state ?w2 (OfLoad ?lid) = Pending"
    using l2 by (simp add: promise_state_def)
  have ok: "\<exists>h. promise_state (step g (PreloadLoad ?lid) ?w2) (OfLoad ?lid) = Fulfilled h \<and>
              h = \<lparr>el_kind = media_class src, el_src = src, el_load = length (loads w)\<rparr> \<and> get src (step g (PreloadLoad ?lid) ?w2) = Some h"
    using step_PreloadLoad [OF l2(1) l2(3), of g] l2(2) l2(4)
    by (simp add: promise_state_def get_def map_of_update_same)
  have bad: "\<exists>e. promise_state (step g (PreloadError ?lid) ?w2) (OfLoad ?lid) = Rejected e \<and>
              e = (case media_class src of Video \<Rightarrow> ''Failed to load video: ''
                   | Image \<Rightarrow> ''Failed to load image: '') @ src \<and>
              cache (step g (PreloadError ?lid) ?w2) = cache ?w2"
    using step_PreloadError [OF l2(1) l2(3), of g] l2(2) l2(4)
    by (simp add: promise_state_def)
  have still: "\<not> isCached src (step g (PreloadError ?lid) ?w1)"
    using step_PreloadError(2) [OF l1(1) l1(3), of g] nc by (simp add: isCached_def)
  from p pend ok bad still show ?thesis by simp
qed

theorem preload_uncached_witness:
  "\<not> isCached ''b.mp4'' init \<and>
   fst (preload ''b.mp4'' init) = OfLoad 0 \<and>
   promise_state (run [''a.jpg''] [CallShowArch 0, ContentLoad 0] (snd (preload ''b.mp4'' init))) (OfLoad 0) = Pending \<and>
   promise_state (step [''a.jpg''] (PreloadError 0)
       (run [''a.jpg''] [CallShowArch 0, ContentLoad 0] (snd (preload ''b.mp4'' init)))) (OfLoad 0) =
     Rejected ''Failed to load video: b.mp4'' \<and>
   \<not> isCached ''b.mp4'' (step [''a.jpg''] (PreloadError 0) (snd (preload ''b.mp4'' init))) \<and>
   get ''b.mp4'' (step [''a.jpg''] (PreloadLoad 0)
       (run [''a.jpg''] [CallShowArch 0, ContentLoad 0] (snd (preload ''b.mp4'' init)))) =
     Some \<lparr>el_kind = Video, el_src = ''b.mp4'', el_load = 0\<rparr>"
proof -
  have h: "\<not> isCached ''b.mp4'' init" by code_simp
  have l: "length (loads init) = 0" by code_simp
  have e: "list_all (\<lambda>ev. ev \<noteq> PreloadLoad (length (loads init)) \<and> ev \<noteq> PreloadError (length (loads init)))
             [CallShowArch 0, ContentLoad 0]"
    by (simp add: l)
  have r: "promise_state (step [''a.jpg''] (PreloadError 0)
       (run [''a.jpg''] [CallShowArch 0, ContentLoad 0] (snd (preload ''b.mp4'' init)))) (OfLoad 0) =
     Rejected ''Failed to load video: b.mp4''"
    by code_simp
  have g: "get ''b.mp4'' (step [''a.jpg''] (PreloadLoad 0)
       (run [''a.jpg''] [CallShowArch 0, ContentLoad 0] (snd (preload ''b.mp4'' init)))) =
     Some \<lparr>el_kind = Video, el_src = ''b.mp4'', el_load = 0\<rparr>"
    by code_simp
  from preload_uncached [OF h e, of "[''a.jpg'']"] h r g show ?thesis by (simp add: l)
qed

subsection \<open>Media classification\<close>

text \<open>
  C7. The two places that classify an identifier agree with \<open>media_class\<close>, which is total:
  the load that \<open>preload\<close> creates for an uncached identifier and the overlay that
  \<open>showProjectImages\<close> opens for a valid index are of kind video exactly when the
  identifier ends in \<open>.mp4\<close> or \<open>.webm\<close>, and of kind image otherwise.
\<close>

theorem classification_agrees:
  "(\<not> isCached src w \<longrightarrow>
      loads (snd (preload src w)) =
        loads w @ [\<lparr>l_src = src, l_kind = media_class src, l_state = Pending, l_catch = None\<rparr>]) \<and>
   (0 \<le> i \<and> i < int (length images) \<longrightarrow>
      (\<exists>w'. showProjectImages (Some i) images w = Inr w' \<and>
            nodes w' =
              nodes w @ [\<lparr>ov_classes = [''preview-overlay'', ''loading''],
                ov_contents = Elements [Loader, Content (media_class (images ! nat i)) (images ! nat i)],
                ov_src = images ! nat i, ov_video = (media_class (images ! nat i) = Video)\<rparr>])) \<and>
   (media_class src = Video \<longleftrightarrow> (\<exists>p. src = p @ ''.mp4'') \<or> (\<exists>p. src = p @ ''.webm'')) \<and>
   (media_class src = Image \<longleftrightarrow> \<not> ((\<exists>p. src = p @ ''.mp4'') \<or> (\<exists>p. src = p @ ''.webm'')))"
proof -
  have a: "loads (snd (preload src w)) =
        loads w @ [\<lparr>l_src = src, l_kind = media_class src, l_state = Pending, l_catch = None\<rparr>]"
    if "\<not> isCached src w"
    using that by (simp add: isCached_def preload_loads media_class_endsWith)
  have b: "\<exists>w'. showProjectImages (Some i) images w = Inr w' \<and>
            nodes w' =
              nodes w @ [\<lparr>ov_classes = [''preview-overlay'', ''loading''],
                ov_contents = Elements [Loader, Content (media_class (images ! nat i)) (images ! nat i)],
                ov_src = images ! nat i, ov_video = (media_class (images ! nat i) = Video)\<rparr>]"
    if "0 \<le> i" and "i < int (length images)"
    using showProjectImages_valid [OF that, of w]
    by (simp add: Let_def showPreview_nodes media_class_endsWith)
  have c: "media_class src = Video \<longleftrightarrow> (\<exists>p. src = p @ ''.mp4'') \<or> (\<exists>p. src = p @ ''.webm'')"
    by (simp add: media_class_def suffix_def)
  have d: "media_class src = Image \<longleftrightarrow> \<not> ((\<exists>p. src = p @ ''.mp4'') \<or> (\<exists>p. src = p @ ''.webm''))"
    by (simp add: media_class_def suffix_def)
  from a b c d show ?thesis by blast
qed

theorem classification_agrees_witness:
  "\<not> isCached ''clip.webm'' init \<and>
   loads (snd (preload ''clip.webm'' init)) =
     [\<lparr>l_src = ''clip.webm'', l_kind = Video, l_state = Pending, l_catch = None\<rparr>] \<and>
   (\<exists>w'. showProjectImages (Some 1) [''a.jpg'', ''clip.webm''] init = Inr w' \<and>
      nodes w' =
        [\<lparr>ov_classes = [''preview-overlay'', ''loading''],
          ov_contents = Elements [Loader, Content Video ''clip.webm''],
          ov_src = ''clip.webm'', ov_video = True\<rparr>])"
proof -
  have h: "\<not> isCached ''clip.webm'' init" by code_simp
  have m: "media_class ''clip.webm'' = Video" by code_simp
  have n: "nodes init = []" "loads init = []" by code_simp+
  from classification_agrees [of "''clip.webm''" init 1 "[''a.jpg'', ''clip.webm'']"] h m n
  show ?thesis by simp
qed

subsection \<open>showProjectImages\<close>

lemma next_index_differs:
  assumes "0 \<le> i" and "i < int (length images)" and "2 \<le> length images"
  shows "(i + 1) mod int (length images) \<noteq> i"
proof (cases "i + 1 < int (length images)")
  case True
  with assms(1) have "(i + 1) mod int (length images) = i + 1" by simp
  then show ?thesis by simp
next
  case False
  with assms(2) have e: "i + 1 = int (length images)" by linarith
  then have "(i + 1) mod int (length images) = 0" by simp
  moreover from e assms(3) have "i \<noteq> 0" by linarith
  ultimately show ?thesis by simp
qed

lemma next_index_single:
  assumes "0 \<le> i" and "i < int (length images)" and "length images = 1"
  shows "(i + 1) mod int (length images) = i"
  using assms by simp

lemma showPreview_document:
  "document (showPreview src v w) = document (teardown_existing w) @ [length (nodes w)]"
  by (simp add: showPreview_def Let_def prim_defs)

text \<open>
  C9, amended. For every list and every valid index, \<open>showProjectImages\<close> returns normally
  having shown the item at that index by \<open>showPreview\<close>: the new overlay is the last node
  and the last element of the document. For a list of one item it does nothing else. For
  a list of two or more items it calls \<open>preload\<close> on the item at \<open>(index + 1) mod length\<close>
  with a \<open>catch\<close> handler: when that item is cached no load is created; when it is not, one
  load is created for it, and if that load later fails (after any events \<open>es\<close> that do
  not signal it), the only effects are the warning \<open>Failed to preload: ...\<close> on the
  console: nothing is thrown and the document is unchanged.
\<close>

theorem showProjectImages_shows_and_preloads:
  assumes "0 \<le> i" and "i < int (length images)"
    and "list_all (\<lambda>ev. ev \<noteq> PreloadLoad (length (loads w)) \<and> ev \<noteq> PreloadError (length (loads w))) es"
  shows "\<exists>w'. showProjectImages (Some i) images w = Inr w' \<and>
      document w' = document (teardown_existing w) @ [length (nodes w)] \<and>
      nodes w' =
        nodes w @ [\<lparr>ov_classes = [''preview-overlay'', ''loading''],
          ov_contents = Elements [Loader, Content (media_class (images ! nat i)) (images ! nat i)],
          ov_src = images ! nat i, ov_video = (media_class (images ! nat i) = Video)\<rparr>] \<and>
      (length images = 1 \<longrightarrow>
         w' = showPreview (images ! nat i) (media_class (images ! nat i) = Video) w) \<and>
      (2 \<le> length images \<longrightarrow>
         w' = catch_warn
                (fst (preload (images ! nat ((i + 1) mod int (length images)))
                        (showPreview (images ! nat i) (media_class (images ! nat i) = Video) w)))
                (''Failed to preload: '' @ images ! nat ((i + 1) mod int (length images)))
                (snd (preload (images ! nat ((i + 1) mod int (length images)))
                        (showPreview (images ! nat i) (media_class (images ! nat i) = Video) w))) \<and>
         (isCached (images ! nat ((i + 1) mod int (length images))) w \<longrightarrow> loads w' = loads w) \<and>
         (\<not> isCached (images ! nat ((i + 1) mod int (length images))) w \<longrightarrow>
            loads w' =
              loads w @ [\<lparr>l_src = images ! nat ((i + 1) mod int (length images)),
                l_kind = media_class (images ! nat ((i + 1) mod int (length images))),
                l_state = Pending,
                l_catch = Some (''Failed to preload: '' @ images ! nat ((i + 1) mod int (length images)))\<rparr>] \<and>
            console (step g (PreloadError (length (loads w))) (run g es w')) =
              console (run g es w') @ [''Failed to preload: '' @ images ! nat ((i + 1) mod int (length images))] \<and>
            uncaught (step g (PreloadError (length (loads w))) (run g es w')) = uncaught (run g es w') \<and>
            document (step g (PreloadError (length (loads w))) (run g es w')) = document (run g es w')))"
proof -
  let ?src = "images ! nat i"
  let ?next = "images ! nat ((i + 1) mod int (length images))"
  let ?w1 = "showPreview ?src (media_class ?src = Video) w"
  let ?bg = "catch_warn (fst (preload ?next ?w1)) (''Failed to preload: '' @ ?next) (snd (preload ?next ?w1))"
  let ?lid = "length (loads w)"
  have v: "(endsWith ?src ''.mp4'' \<or> endsWith ?src ''.webm'') = (media_class ?src = Video)"
    by (simp add: media_class_endsWith)
  have eq: "showProjectImages (Some i) images w =
      Inr (if (i + 1) mod int (length images) = i then ?w1 else ?bg)"
    using showProjectImages_valid [OF assms(1,2), of w] by (simp add: Let_def v)
  have bg_fields: "document ?bg = document ?w1" "nodes ?bg = nodes ?w1" by simp_all
  have n1: "nodes ?w1 =
        nodes w @ [\<lparr>ov_classes = [''preview-overlay'', ''loading''],
          ov_contents = Elements [Loader, Content (media_class ?src) ?src],
          ov_src = ?src, ov_video = (media_class ?src = Video)\<rparr>]"
    by (cases "media_class ?src") (simp_all add: showPreview_nodes)
  have d1: "document ?w1 = document (teardown_existing w) @ [length (nodes w)]"
    by (rule showPreview_document)
  show ?thesis
  proof (cases "length images = 1")
    case True
    from next_index_single [OF assms(1,2) True] eq
    have "showProjectImages (Some i) images w = Inr ?w1" by simp
    with True n1 d1 show ?thesis by simp
  next
    case False
    from assms(1,2) have "0 < length images" by (cases images) auto
    with False have two: "2 \<le> length images" by linarith
    from next_index_differs [OF assms(1,2) two] eq
    have r: "showProjectImages (Some i) images w = Inr ?bg" by simp
    have cached: "loads ?bg = loads w" if "isCached ?next w"
      using that by (auto simp: isCached_def catch_warn_preload)
    have fresh: "loads ?bg =
              loads w @ [\<lparr>l_src = ?next, l_kind = media_class ?next, l_state = Pending,
                l_catch = Some (''Failed to preload: '' @ ?next)\<rparr>]"
      if "\<not> isCached ?next w"
      using that by (simp add: isCached_def catch_warn_preload media_class_endsWith)
    have fail: "console (step g (PreloadError ?lid) (run g es ?bg)) =
              console (run g es ?bg) @ [''Failed to preload: '' @ ?next] \<and>
            uncaught (step g (PreloadError ?lid) (run g es ?bg)) = uncaught (run g es ?bg) \<and>
            document (step g (PreloadError ?lid) (run g es ?bg)) = document (run g es ?bg)"
      if nc: "\<not> isCached ?next w"
    proof -
      from fresh [OF nc] have l: "?lid < length (loads ?bg)"
        "loads ?bg ! ?lid = \<lparr>l_src = ?next, l_kind = media_class ?next, l_state = Pending,
                l_catch = Some (''Failed to preload: '' @ ?next)\<rparr>"
        by simp_all
      from run_keeps_load [OF assms(3) l(1), of g] l(2)
      have l2: "?lid < length (loads (run g es ?bg))"
        "l_state (loads (run g es ?bg) ! ?lid) = Pending"
        "l_catch (loads (run g es ?bg) ! ?lid) = Some (''Failed to preload: '' @ ?next)"
        by simp_all
      from step_PreloadError(3,4,5) [OF l2(1,2), of g] l2(3) show ?thesis by simp
    qed
    from r two n1 d1 bg_fields cached fresh fail False show ?thesis by simp
  qed
qed

text \<open>
  C9 as stated fails for a list of one item: \<open>showProjectImages\<close> at index 0 returns
  right after \<open>showPreview\<close>, no load exists afterwards and the cache is empty, although
  \<open>(0 + 1) mod 1 = 0\<close> names an item that \<open>preload\<close> would have started a load for.
\<close>

theorem showProjectImages_single_counterexample:
  "showProjectImages (Some 0) [''a.jpg''] init = Inr (showPreview ''a.jpg'' False init) \<and>
   loads (showPreview ''a.jpg'' False init) = [] \<and>
   cache (showPreview ''a.jpg'' False init) = [] \<and>
   (0 + 1) mod int (length [''a.jpg'']) = (0::int) \<and>
   loads (snd (preload ''a.jpg'' (showPreview ''a.jpg'' False init))) \<noteq> []"
  by code_simp

theorem showProjectImages_shows_and_preloads_witness:
  "(0::int) \<le> 1 \<and> (1::int) < int (length [''a.jpg'', ''b.mp4'']) \<and>
   (\<exists>w'. showProjectImages (Some 1) [''a.jpg'', ''b.mp4''] init = Inr w' \<and>
      document w' = [0] \<and>
      loads w' = [\<lparr>l_src = ''a.jpg'', l_kind = Image, l_state = Pending,
                   l_catch = Some ''Failed to preload: a.jpg''\<rparr>] \<and>
      console (step [''a.jpg'', ''b.mp4''] (PreloadError 0)
                 (run [''a.jpg'', ''b.mp4''] [ContentLoad 0, KeyDown ''Escape''] w')) =
        [''Failed to preload: a.jpg''] \<and>
      uncaught (step [''a.jpg'', ''b.mp4''] (PreloadError 0)
                 (run [''a.jpg'', ''b.mp4''] [ContentLoad 0, KeyDown ''Escape''] w')) = []) \<and>
   showProjectImages (Some 0) [''a.jpg''] init = Inr (showPreview ''a.jpg'' False init) \<and>
   isCached ''a.jpg'' (run [''a.jpg'', ''b.mp4''] [CallShowArch 1, PreloadLoad 0] init) \<and>
   (\<exists>w'. showProjectImages (Some 1) [''a.jpg'', ''b.mp4'']
           (run [''a.jpg'', ''b.mp4''] [CallShowArch 1, PreloadLoad 0] init) = Inr w' \<and>
         loads w' = loads (run [''a.jpg'', ''b.mp4''] [CallShowArch 1, PreloadLoad 0] init))"
proof -
  have a: "(0::int) \<le> 1" "(1::int) < int (length [''a.jpg'', ''b.mp4''])" by simp_all
  have l: "loads init = []" "nodes init = []" "document (teardown_existing init) = []"
    "\<not> isCached ''a.jpg'' init" "media_class ''a.jpg'' = Image" "media_class ''b.mp4'' = Video"
    by code_simp+
  have e: "list_all (\<lambda>ev. ev \<noteq> PreloadLoad (length (loads init)) \<and> ev \<noteq> PreloadError (length (loads init)))
             [ContentLoad 0, KeyDown ''Escape'']" by simp
  from showProjectImages_shows_and_preloads [OF a e, of "[''a.jpg'', ''b.mp4'']"]
  obtain w' where w: "showProjectImages (Some 1) [''a.jpg'', ''b.mp4''] init = Inr w'"
    and d: "document w' = [0]"
    and ld: "loads w' = [\<lparr>l_src = ''a.jpg'', l_kind = Image, l_state = Pending,
                   l_catch = Some ''Failed to preload: a.jpg''\<rparr>]"
    and c: "console (step [''a.jpg'', ''b.mp4''] (PreloadError 0)
                 (run [''a.jpg'', ''b.mp4''] [ContentLoad 0, KeyDown ''Escape''] w')) =
        console (run [''a.jpg'', ''b.mp4''] [ContentLoad 0, KeyDown ''Escape''] w') @ [''Failed to preload: a.jpg'']"
    and u: "uncaught (step [''a.jpg'', ''b.mp4''] (PreloadError 0)
                 (run [''a.jpg'', ''b.mp4''] [ContentLoad 0, KeyDown ''Escape''] w')) =
         uncaught (run [''a.jpg'', ''b.mp4''] [ContentLoad 0, KeyDown ''Escape''] w')"
    using l by auto
  have w'_eq: "w' = projr (showProjectImages (Some 1) [''a.jpg'', ''b.mp4''] init)"
    using w by simp
  have "console (run [''a.jpg'', ''b.mp4''] [ContentLoad 0, KeyDown ''Escape''] w') = []"
    "uncaught (run [''a.jpg'', ''b.mp4''] [ContentLoad 0, KeyDown ''Escape''] w') = []"
    unfolding w'_eq by code_simp+
  with w d ld c u have first: "\<exists>w'. showProjectImages (Some 1) [''a.jpg'', ''b.mp4''] init = Inr w' \<and>
      document w' = [0] \<and>
      loads w' = [\<lparr>l_src = ''a.jpg'', l_kind = Image, l_state = Pending,
                   l_catch = Some ''Failed to preload: a.jpg''\<rparr>] \<and>
      console (step [''a.jpg'', ''b.mp4''] (PreloadError 0)
                 (run [''a.jpg'', ''b.mp4''] [ContentLoad 0, KeyDown ''Escape''] w')) =
        [''Failed to preload: a.jpg''] \<and>
      uncaught (step [''a.jpg'', ''b.mp4''] (PreloadError 0)
                 (run [''a.jpg'', ''b.mp4''] [ContentLoad 0, KeyDown ''Escape''] w')) = []"
    by simp
  have b: "(0::int) \<le> 0" "(0::int) < int (length [''a.jpg''])" by simp_all
  from showProjectImages_shows_and_preloads [OF b, of init "[]" "[]"] l
  have single: "showProjectImages (Some 0) [''a.jpg''] init = Inr (showPreview ''a.jpg'' False init)"
    by auto
  have k: "isCached ''a.jpg'' (run [''a.jpg'', ''b.mp4''] [CallShowArch 1, PreloadLoad 0] init)"
    by code_simp
  from showProjectImages_shows_and_preloads [OF a, of "run [''a.jpg'', ''b.mp4''] [CallShowArch 1, PreloadLoad 0] init" "[]" "[]"] k
  have cached: "\<exists>w'. showProjectImages (Some 1) [''a.jpg'', ''b.mp4'']
           (run [''a.jpg'', ''b.mp4''] [CallShowArch 1, PreloadLoad 0] init) = Inr w' \<and>
         loads w' = loads (run [''a.jpg'', ''b.mp4''] [CallShowArch 1, PreloadLoad 0] init)"
    by auto
  from a first single k cached show ?thesis by simp
qed

subsection \<open>The single-overlay invariant\<close>

lemma overlay_inv_cases:
  assumes "overlay_inv w"
  obtains (empty) "document w = []" "listeners w = []"
  | (one) oid where "document w = [oid]" "oid < length (nodes w)"
      "listeners w = [EscHandler oid, KeyNavHandler oid]"
proof (cases "document w")
  case Nil
  with assms show ?thesis by (intro empty) (simp_all add: overlay_inv_def)
next
  case (Cons k ks)
  with assms have "ks = []" by (simp add: overlay_inv_def)
  with assms Cons show ?thesis by (intro one [of k]) (simp_all add: overlay_inv_def)
qed

lemma overlay_inv_classes:
  "overlay_inv w \<Longrightarrow> oid < length (nodes w) \<Longrightarrow> ''preview-overlay'' \<in> set (ov_classes (nodes w ! oid))"
  by (simp add: overlay_inv_def list_all_length)

lemma overlay_inv_init: "overlay_inv init"
  by (simp add: overlay_inv_def init_def)

lemma overlay_inv_frame:
  "nodes w' = nodes w \<Longrightarrow> document w' = document w \<Longrightarrow> listeners w' = listeners w \<Longrightarrow>
   overlay_inv w' = overlay_inv w"
  by (simp add: overlay_inv_def)

lemma list_all_update:
  assumes "list_all P xs" and "\<And>x. P x \<Longrightarrow> P (f x)"
  shows "list_all P (xs[i := f (xs ! i)])"
proof (cases "i < length xs")
  case True
  with assms have "P (f (xs ! i))" by (simp add: list_all_length)
  with assms(1) show ?thesis
    using set_update_subset_insert [of xs i "f (xs ! i)"] by (auto simp: list_all_iff)
next
  case False
  with assms(1) show ?thesis by (simp add: list_update_beyond)
qed

lemma overlay_inv_update_node:
  assumes "overlay_inv w" and "\<And>ov. ''preview-overlay'' \<in> set (ov_classes ov) \<Longrightarrow> ''preview-overlay'' \<in> set (ov_classes (f ov))"
  shows "overlay_inv (update_node oid f w)"
  using assms(1) list_all_update [of "\<lambda>ov. ''preview-overlay'' \<in> set (ov_classes ov)" "nodes w" f oid] assms(2)
  by (simp add: overlay_inv_def update_node_def)

lemma overlay_inv_setTimeout [simp]: "overlay_inv (setTimeout d a w) = overlay_inv w"
  by (simp add: overlay_inv_def setTimeout_def)

lemma overlay_inv_closePreview: "overlay_inv w \<Longrightarrow> overlay_inv (closePreview oid w)"
  by (simp add: closePreview_def overlay_inv_update_node classList_remove_def)

lemma overlay_inv_loadHandler: "overlay_inv w \<Longrightarrow> overlay_inv (loadHandler oid w)"
  by (simp add: loadHandler_def overlay_inv_update_node classList_remove_def classList_add_def)

lemma overlay_inv_content_onerror: "overlay_inv w \<Longrightarrow> overlay_inv (content_onerror oid src w)"
  by (simp add: content_onerror_def overlay_inv_update_node)

lemma overlay_inv_run_listener: "overlay_inv w \<Longrightarrow> overlay_inv (run_listener g key l w)"
  by (cases l) (simp_all add: run_listener_def escHandler_def keyNavHandler_def Let_def overlay_inv_closePreview)

lemma overlay_inv_cleanup:
  assumes "overlay_inv w"
  shows "overlay_inv (cleanup oid w)"
proof (rule overlay_inv_cases [OF assms])
  assume "document w = []" "listeners w = []"
  with assms show ?thesis by (simp add: overlay_inv_def cleanup_def prim_defs)
next
  fix k assume "document w = [k]" "k < length (nodes w)"
    "listeners w = [EscHandler k, KeyNavHandler k]"
  with assms show ?thesis by (simp add: overlay_inv_def cleanup_def prim_defs)
qed

lemma querySelector_inv:
  assumes "overlay_inv w"
  shows "querySelector w = (case document w of [] \<Rightarrow> None | oid # _ \<Rightarrow> Some oid)"
proof (rule overlay_inv_cases [OF assms])
  assume "document w = []"
  then show ?thesis by (simp add: querySelector_def)
next
  fix k assume "document w = [k]" "k < length (nodes w)"
  then show ?thesis using overlay_inv_classes [OF assms, of k] by (simp add: querySelector_def)
qed

lemma teardown_existing_inv:
  assumes "overlay_inv w"
  shows "document (teardown_existing w) = []" and "listeners (teardown_existing w) = []"
proof -
  show "document (teardown_existing w) = []"
    by (rule overlay_inv_cases [OF assms])
       (simp_all add: teardown_existing_def querySelector_inv [OF assms] prim_defs)
  show "listeners (teardown_existing w) = []"
    by (rule overlay_inv_cases [OF assms])
       (simp_all add: teardown_existing_def querySelector_inv [OF assms] prim_defs)
qed

lemma showPreview_inv:
  assumes "overlay_inv w"
  shows "document (showPreview src v w) = [length (nodes w)]"
    and "listeners (showPreview src v w) = [EscHandler (length (nodes w)), KeyNavHandler (length (nodes w))]"
    and "overlay_inv (showPreview src v w)"
proof -
  show d: "document (showPreview src v w) = [length (nodes w)]"
    by (simp add: showPreview_document teardown_existing_inv [OF assms])
  show l: "listeners (showPreview src v w) = [EscHandler (length (nodes w)), KeyNavHandler (length (nodes w))]"
    by (simp add: showPreview_def Let_def prim_defs teardown_existing_inv [OF assms])
  from assms have "list_all (\<lambda>ov. ''preview-overlay'' \<in> set (ov_classes ov)) (nodes w)"
    by (simp add: overlay_inv_def)
  then show "overlay_inv (showPreview src v w)"
    by (simp add: overlay_inv_def d l showPreview_nodes)
qed

lemma overlay_inv_showProjectImages:
  assumes "overlay_inv w"
  shows "overlay_inv (run_callback (showProjectImages index images) w)"
proof -
  from showProjectImages_cases [of index images w]
  show ?thesis
  proof
    assume "showProjectImages index images w = Inl TypeError"
    then show ?thesis using assms by (simp add: run_callback_def overlay_inv_def)
  next
    assume "\<exists>i. index = Some i \<and> 0 \<le> i \<and> i < int (length images) \<and>
      showProjectImages index images w =
        Inr (let src = images ! nat i;
                 w1 = showPreview src (endsWith src ''.mp4'' \<or> endsWith src ''.webm'') w;
                 nextSrc = images ! nat ((i + 1) mod int (length images))
             in if (i + 1) mod int (length images) = i then w1
                else catch_warn (fst (preload nextSrc w1)) (''Failed to preload: '' @ nextSrc)
                       (snd (preload nextSrc w1)))"
    then obtain i where r: "showProjectImages index images w =
        Inr (let src = images ! nat i;
                 w1 = showPreview src (endsWith src ''.mp4'' \<or> endsWith src ''.webm'') w;
                 nextSrc = images ! nat ((i + 1) mod int (length images))
             in if (i + 1) mod int (length images) = i then w1
                else catch_warn (fst (preload nextSrc w1)) (''Failed to preload: '' @ nextSrc)
                       (snd (preload nextSrc w1)))" by blast
    let ?w1 = "showPreview (images ! nat i) (endsWith (images ! nat i) ''.mp4'' \<or> endsWith (images ! nat i) ''.webm'') w"
    have "overlay_inv ?w1" by (rule showPreview_inv(3) [OF assms])
    moreover have "overlay_inv (catch_warn (fst (preload s ?w1)) m (snd (preload s ?w1))) = overlay_inv ?w1" for s m
      by (rule overlay_inv_frame) simp_all
    ultimately show ?thesis using r by (simp add: run_callback_def Let_def)
  qed
qed

lemma overlay_inv_run_timer: "overlay_inv w \<Longrightarrow> overlay_inv (run_timer g a w)"
  by (cases a) (simp_all add: run_timer_def overlay_inv_cleanup overlay_inv_showProjectImages)

lemma overlay_inv_now [simp]: "overlay_inv (w\<lparr>now := t\<rparr>) = overlay_inv w"
  "overlay_inv (w\<lparr>timers := ts\<rparr>) = overlay_inv w"
  by (simp_all add: overlay_inv_def)

lemma overlay_inv_fire: "overlay_inv w \<Longrightarrow> overlay_inv (fire g t w)"
  by (simp add: fire_def overlay_inv_run_timer)

lemma overlay_inv_elapse: "overlay_inv w \<Longrightarrow> overlay_inv (elapse g d w)"
proof -
  assume a: "overlay_inv w"
  have "overlay_inv (fold (fire g) ts (w\<lparr>timers := later\<rparr>))" for ts later
    by (rule fold_invariant [where P = overlay_inv]) (simp_all add: overlay_inv_fire a)
  then show ?thesis by (simp add: elapse_def Let_def)
qed

lemma overlay_inv_handle: "overlay_inv w \<Longrightarrow> overlay_inv (handle g ev w)"
proof (cases ev)
  case DOMContentLoaded
  assume "overlay_inv w"
  moreover have "overlay_inv (initializeProjectGallery g w) = overlay_inv w"
    by (rule overlay_inv_frame) simp_all
  ultimately show ?thesis using DOMContentLoaded by (simp add: handle_def)
next
  case (KeyDown key)
  assume a: "overlay_inv w"
  have "overlay_inv (fold (run_listener g key) ls w)" for ls
    by (rule fold_invariant [where P = overlay_inv]) (simp_all add: overlay_inv_run_listener a)
  then show ?thesis using KeyDown by (simp add: handle_def)
next
  case (PreloadLoad l)
  assume "overlay_inv w"
  moreover have "overlay_inv (preload_onload l w) = overlay_inv w"
    by (rule overlay_inv_frame) (simp_all add: preload_onload_def Let_def resolve_def)
  ultimately show ?thesis using PreloadLoad by (simp add: handle_def)
next
  case (PreloadError l)
  assume "overlay_inv w"
  moreover have "overlay_inv (preload_onerror l w) = overlay_inv w"
    by (rule overlay_inv_frame)
       (simp_all add: preload_onerror_def Let_def reject_def split: media.splits option.splits)
  ultimately show ?thesis using PreloadError by (simp add: handle_def)
qed (simp_all add: handle_def overlay_inv_showProjectImages overlay_inv_closePreview
       overlay_inv_loadHandler overlay_inv_content_onerror overlay_inv_elapse overlay_onclick_def)

lemma overlay_inv_step: "overlay_inv w \<Longrightarrow> overlay_inv (step g ev w)"
proof -
  assume "overlay_inv w"
  then have "overlay_inv (handle g ev w)" by (rule overlay_inv_handle)
  moreover have "overlay_inv (microtasks (handle g ev w)) = overlay_inv (handle g ev w)"
    by (rule overlay_inv_frame) simp_all
  ultimately show ?thesis by (simp add: step_def)
qed

lemma overlay_inv_run: "overlay_inv w \<Longrightarrow> overlay_inv (run g es w)"
  unfolding run_def by (rule fold_invariant [where P = overlay_inv]) (simp_all add: overlay_inv_step)

text \<open>
  C1. In every state the script can reach from the empty page (after any sequence of
  events), the document holds at most one overlay. At every call of \<open>showPreview\<close> in
  such a state, the existing overlay, if any, is removed and its two keydown listeners
  are detached before the new overlay is built (after the first lines of \<open>showPreview\<close>
  the document and the listener list are empty); after the call the document holds
  exactly the new overlay, which is none of the earlier ones, and the listeners are
  exactly the new overlay's Escape and arrow handlers.
\<close>

theorem single_overlay:
  "length (document (run g es init)) \<le> 1 \<and>
   length (nodes (run g es init)) \<notin> set (document (run g es init)) \<and>
   document (teardown_existing (run g es init)) = [] \<and>
   listeners (teardown_existing (run g es init)) = [] \<and>
   document (showPreview src v (run g es init)) = [length (nodes (run g es init))] \<and>
   listeners (showPreview src v (run g es init)) =
     [EscHandler (length (nodes (run g es init))), KeyNavHandler (length (nodes (run g es init)))]"
proof -
  have inv: "overlay_inv (run g es init)"
    by (rule overlay_inv_run [OF overlay_inv_init])
  then have "length (document (run g es init)) \<le> 1"
    and "list_all (\<lambda>oid. oid < length (nodes (run g es init))) (document (run g es init))"
    by (simp_all add: overlay_inv_def)
  then have "length (document (run g es init)) \<le> 1"
    and "length (nodes (run g es init)) \<notin> set (document (run g es init))"
    by (auto simp: list_all_iff)
  with teardown_existing_inv [OF inv] showPreview_inv(1,2) [OF inv, of src v]
  show ?thesis by simp
qed

theorem single_overlay_witness:
  "document (run archProjectImages [CallShowArch 0, ContentLoad 0, CallShowArch 1] init) = [1] \<and>
   listeners (run archProjectImages [CallShowArch 0, ContentLoad 0, CallShowArch 1] init) =
     [EscHandler 1, KeyNavHandler 1] \<and>
   document (showPreview ''images/arch7.jpg'' False
     (run archProjectImages [CallShowArch 0, ContentLoad 0, CallShowArch 1] init)) = [2] \<and>
   listeners (showPreview ''images/arch7.jpg'' False
     (run archProjectImages [CallShowArch 0, ContentLoad 0, CallShowArch 1] init)) =
     [EscHandler 2, KeyNavHandler 2]"
proof -
  have n: "length (nodes (run archProjectImages [CallShowArch 0, ContentLoad 0, CallShowArch 1] init)) = 2"
    by code_simp
  have d: "document (run archProjectImages [CallShowArch 0, ContentLoad 0, CallShowArch 1] init) = [1]"
    "listeners (run archProjectImages [CallShowArch 0, ContentLoad 0, CallShowArch 1] init) =
       [EscHandler 1, KeyNavHandler 1]"
    by code_simp+
  from single_overlay [of archProjectImages "[CallShowArch 0, ContentLoad 0, CallShowArch 1]"
      "''images/arch7.jpg''" False] n d
  show ?thesis by simp
qed

subsection \<open>Uncaught exceptions\<close>

lemma set_enqueue [simp]: "set (enqueue t ts) = insert t (set ts)"
  by (induction ts) auto

lemma nav_index_valid:
  assumes "g \<noteq> []" and "dir = - 1 \<or> dir = 1"
  shows "valid_action (length g) (ShowProjectImages (js_rem (indexOf g s + dir + int (length g)) (int (length g))))"
proof -
  let ?n = "int (length g)"
  let ?v = "indexOf g s + dir + ?n"
  from assms(1) have n: "1 \<le> ?n" by (cases g) simp_all
  then have p: "0 < ?n" by linarith
  have c: "- 1 \<le> indexOf g s" by (rule indexOf_ge)
  show ?thesis
  proof (cases "0 \<le> ?v")
    case True
    from js_rem_nonneg [OF True p] p show ?thesis by (simp del: of_nat_0_less_iff)
  next
    case False
    with c assms(2) n have "?n = 1" "?v = - 1" by linarith+
    then show ?thesis by (simp add: js_rem_def)
  qed
qed

lemma no_throw_frame:
  "uncaught w' = uncaught w \<Longrightarrow> timers w' = timers w \<Longrightarrow> no_throw n w' = no_throw n w"
  by (simp add: no_throw_def)

lemma no_throw_setTimeout:
  "no_throw n w \<Longrightarrow> valid_action n a \<Longrightarrow> no_throw n (setTimeout d a w)"
  by (simp add: no_throw_def setTimeout_def list_all_iff)

lemma no_throw_update_node [simp]: "no_throw n (update_node oid f w) = no_throw n w"
  by (simp add: no_throw_def update_node_def)

lemma no_throw_closePreview: "no_throw n w \<Longrightarrow> no_throw n (closePreview oid w)"
  by (simp add: closePreview_def no_throw_setTimeout)

lemma no_throw_run_listener:
  "g \<noteq> [] \<Longrightarrow> no_throw (length g) w \<Longrightarrow> no_throw (length g) (run_listener g key l w)"
  by (cases l)
     (simp_all add: run_listener_def escHandler_def keyNavHandler_def Let_def no_throw_closePreview
        no_throw_setTimeout nav_index_valid)

lemma run_callback_valid:
  assumes "valid_action (length g) (ShowProjectImages index)"
  shows "uncaught (run_callback (showProjectImages index g) w) = uncaught w"
    and "timers (run_callback (showProjectImages index g) w) = timers w"
proof -
  from assms obtain i where i: "index = Some i" "0 \<le> i" "i < int (length g)"
    by (cases index) simp_all
  from showProjectImages_valid [OF i(2,3), of w]
  obtain w' where r: "showProjectImages index g w = Inr w'" using i(1) by simp
  from showProjectImages_frame(3,6) [OF r] r
  show "uncaught (run_callback (showProjectImages index g) w) = uncaught w"
    and "timers (run_callback (showProjectImages index g) w) = timers w"
    by (simp_all add: run_callback_def)
qed

lemma timers_run_timer: "timers (run_timer g a w) = timers w"
proof (cases a)
  case (Cleanup oid)
  then show ?thesis by (simp add: run_timer_def cleanup_def prim_defs)
next
  case (ShowProjectImages index)
  show ?thesis
  proof (cases "showProjectImages index g w")
    case (Inl e)
    then show ?thesis using ShowProjectImages by (simp add: run_timer_def run_callback_def)
  next
    case (Inr w')
    from showProjectImages_frame(3) [OF Inr] Inr ShowProjectImages
    show ?thesis by (simp add: run_timer_def run_callback_def)
  qed
qed

lemma timers_fire: "timers (fire g t w) = timers w"
  by (simp add: fire_def timers_run_timer)

lemma uncaught_fire:
  "valid_action (length g) (snd t) \<Longrightarrow> uncaught (fire g t w) = uncaught w"
  by (cases "snd t") (simp_all add: fire_def run_timer_def cleanup_def prim_defs run_callback_valid)

lemma fold_fire_timers: "timers (fold (fire g) ts w) = timers w"
  by (induction ts arbitrary: w) (simp_all add: timers_fire)

lemma fold_fire_uncaught:
  "list_all (\<lambda>t. valid_action (length g) (snd t)) ts \<Longrightarrow> uncaught (fold (fire g) ts w) = uncaught w"
  by (induction ts arbitrary: w) (simp_all add: uncaught_fire)

lemma timers_elapse:
  "timers (elapse g d w) = dropWhile (\<lambda>u. fst u \<le> now w + d) (timers w)"
  by (simp add: elapse_def Let_def fold_fire_timers)

lemma no_throw_elapse:
  assumes "no_throw (length g) w"
  shows "no_throw (length g) (elapse g d w)"
proof -
  from assms have v: "list_all (\<lambda>t. valid_action (length g) (snd t)) (timers w)"
    and u: "uncaught w = []" by (simp_all add: no_throw_def)
  from v have "list_all (\<lambda>t. valid_action (length g) (snd t)) (takeWhile (\<lambda>u. fst u \<le> now w + d) (timers w))"
    and l: "list_all (\<lambda>t. valid_action (length g) (snd t)) (dropWhile (\<lambda>u. fst u \<le> now w + d) (timers w))"
    by (auto simp: list_all_iff dest: set_takeWhileD set_dropWhileD)
  from fold_fire_uncaught [OF this(1)] u
  have "uncaught (elapse g d w) = []" by (simp add: elapse_def Let_def)
  with l show ?thesis by (simp add: no_throw_def timers_elapse)
qed

lemma no_throw_handle:
  assumes "g \<noteq> []" and "no_throw (length g) w" and "valid_event (length g) ev"
  shows "no_throw (length g) (handle g ev w)"
proof (cases ev)
  case DOMContentLoaded
  have "no_throw (length g) (initializeProjectGallery g w) = no_throw (length g) w"
    by (rule no_throw_frame) simp_all
  with assms(2) DOMContentLoaded show ?thesis by (simp add: handle_def)
next
  case (CallShowArch i)
  with assms(3) have "valid_action (length g) (ShowProjectImages (Some i))" by simp
  from run_callback_valid [OF this, of w] assms(2) CallShowArch
  show ?thesis by (simp add: handle_def no_throw_def)
next
  case (KeyDown key)
  have "no_throw (length g) (fold (run_listener g key) ls w)" for ls
    by (rule fold_invariant [where P = "no_throw (length g)"])
       (simp_all add: no_throw_run_listener assms)
  then show ?thesis using KeyDown by (simp add: handle_def)
next
  case (PreloadLoad l)
  have "no_throw (length g) (preload_onload l w) = no_throw (length g) w"
    by (rule no_throw_frame) (simp_all add: preload_onload_def Let_def resolve_def)
  with assms(2) PreloadLoad show ?thesis by (simp add: handle_def)
next
  case (PreloadError l)
  have "no_throw (length g) (preload_onerror l w) = no_throw (length g) w"
    by (rule no_throw_frame)
       (simp_all add: preload_onerror_def Let_def reject_def split: media.splits option.splits)
  with assms(2) PreloadError show ?thesis by (simp add: handle_def)
qed (use assms(2) in \<open>simp_all add: handle_def overlay_onclick_def no_throw_closePreview
       loadHandler_def content_onerror_def no_throw_setTimeout no_throw_elapse\<close>)

lemma no_throw_step:
  assumes "g \<noteq> []" and "no_throw (length g) w" and "valid_event (length g) ev"
  shows "no_throw (length g) (step g ev w)"
proof -
  have "no_throw (length g) (microtasks (handle g ev w)) = no_throw (length g) (handle g ev w)"
    by (rule no_throw_frame) simp_all
  with no_throw_handle [OF assms] show ?thesis by (simp add: step_def)
qed

lemma no_throw_run:
  assumes "g \<noteq> []" and "list_all (valid_event (length g)) es" and "no_throw (length g) w"
  shows "no_throw (length g) (run g es w)"
  using assms(2,3)
proof (induction es arbitrary: w)
  case Nil
  then show ?case by (simp add: run_def)
next
  case (Cons ev es)
  from Cons.prems have "valid_event (length g) ev" "list_all (valid_event (length g)) es" by simp_all
  from Cons.IH [OF this(2) no_throw_step [OF assms(1) Cons.prems(2) this(1)]]
  show ?case by (simp add: run_def)
qed

text \<open>
  C6 as stated fails outside the list: at index 200 (one past the end) and at index -1,
  \<open>images[index]\<close> is \<open>undefined\<close> and \<open>src.endsWith\<close> throws a \<open>TypeError\<close> that nothing
  catches.
\<close>

theorem showArchProjectImages_out_of_range_counterexample:
  "showArchProjectImages 200 init = Inl TypeError \<and>
   showArchProjectImages (- 1) init = Inl TypeError \<and>
   uncaught (run archProjectImages [CallShowArch 200] init) = [TypeError]"
  by code_simp

lemma length_archProjectImages: "length archProjectImages = 200"
  by (simp add: archProjectImages_def)

text \<open>
  C6, amended. For every index with \<open>0 \<le> index < 200\<close>, the length of the built-in list,
  \<open>showArchProjectImages\<close> returns without throwing; for every other integer it throws a
  \<open>TypeError\<close> before changing anything. In every run from the empty page in which all
  calls of the exported function are within the list, whatever loads fail and whatever
  keys are pressed, no callback of the script ever throws.
\<close>

theorem showArchProjectImages_in_range:
  "(0 \<le> index \<and> index < 200 \<longrightarrow> (\<exists>w'. showArchProjectImages index w = Inr w')) \<and>
   (\<not> (0 \<le> index \<and> index < 200) \<longrightarrow> showArchProjectImages index w = Inl TypeError) \<and>
   (list_all (valid_event 200) es \<longrightarrow> uncaught (run archProjectImages es init) = [])"
proof -
  have a: "\<exists>w'. showArchProjectImages index w = Inr w'" if "0 \<le> index \<and> index < 200"
    using that showProjectImages_valid [of index archProjectImages w]
    by (simp add: showArchProjectImages_def length_archProjectImages)
  have b: "showArchProjectImages index w = Inl TypeError" if "\<not> (0 \<le> index \<and> index < 200)"
    using that showProjectImages_invalid(1) [of index archProjectImages w]
    by (simp add: showArchProjectImages_def length_archProjectImages)
  have c: "uncaught (run archProjectImages es init) = []" if "list_all (valid_event 200) es"
  proof -
    have ne: "archProjectImages \<noteq> []" using length_archProjectImages by auto
    have i: "no_throw (length archProjectImages) init" by (simp add: no_throw_def init_def)
    from that have "list_all (valid_event (length archProjectImages)) es"
      by (simp add: length_archProjectImages)
    from no_throw_run [OF ne this i] show ?thesis by (simp add: no_throw_def)
  qed
  from a b c show ?thesis by blast
qed

theorem showArchProjectImages_in_range_witness:
  "(\<exists>w'. showArchProjectImages 199 init = Inr w') \<and>
   showArchProjectImages 200 init = Inl TypeError \<and>
   list_all (valid_event 200)
     [CallShowArch 199, ContentError 0, KeyDown ''ArrowRight'', Elapse 300, PreloadError 0] \<and>
   uncaught (run archProjectImages
     [CallShowArch 199, ContentError 0, KeyDown ''ArrowRight'', Elapse 300, PreloadError 0] init) = []"
proof -
  have v: "list_all (valid_event 200)
     [CallShowArch 199, ContentError 0, KeyDown ''ArrowRight'', Elapse 300, PreloadError 0]"
    by simp
  from showArchProjectImages_in_range [of 199 init
      "[CallShowArch 199, ContentError 0, KeyDown ''ArrowRight'', Elapse 300, PreloadError 0]"]
    showArchProjectImages_in_range [of 200 init "[]"] v
  show ?thesis by simp
qed

subsection \<open>Timers and the clock\<close>

lemma sorted_enqueue: "sorted (map fst ts) \<Longrightarrow> sorted (map fst (enqueue t ts))"
  by (induction ts) auto

lemma timers_inv_init: "timers_inv init"
  by (simp add: timers_inv_def init_def)

lemma timers_inv_frame:
  "timers w' = timers w \<Longrightarrow> now w' = now w \<Longrightarrow> timers_inv w' = timers_inv w"
  by (simp add: timers_inv_def)

lemma timers_inv_setTimeout: "timers_inv w \<Longrightarrow> 0 < d \<Longrightarrow> timers_inv (setTimeout d a w)"
  by (simp add: timers_inv_def setTimeout_def sorted_enqueue list_all_iff)

lemma timers_inv_update_node [simp]: "timers_inv (update_node oid f w) = timers_inv w"
  by (simp add: timers_inv_def update_node_def)

lemma timers_inv_closePreview: "timers_inv w \<Longrightarrow> timers_inv (closePreview oid w)"
  by (simp add: closePreview_def timers_inv_setTimeout)

lemma timers_inv_run_listener: "timers_inv w \<Longrightarrow> timers_inv (run_listener g key l w)"
  by (cases l)
     (simp_all add: run_listener_def escHandler_def keyNavHandler_def Let_def timers_inv_closePreview
        timers_inv_setTimeout)

lemma now_run_timer: "now (run_timer g a w) = now w"
proof (cases a)
  case (Cleanup oid)
  then show ?thesis by (simp add: run_timer_def cleanup_def prim_defs)
next
  case (ShowProjectImages index)
  show ?thesis
  proof (cases "showProjectImages index g w")
    case (Inl e)
    then show ?thesis using ShowProjectImages by (simp add: run_timer_def run_callback_def)
  next
    case (Inr w')
    from showProjectImages_frame(4) [OF Inr] Inr ShowProjectImages
    show ?thesis by (simp add: run_timer_def run_callback_def)
  qed
qed

lemma run_callback_show_timers:
  "timers (run_callback (showProjectImages index g) w) = timers w"
  "now (run_callback (showProjectImages index g) w) = now w"
  using timers_run_timer [of g "ShowProjectImages index" w] now_run_timer [of g "ShowProjectImages index" w]
  by (simp_all add: run_timer_def)

lemma dropWhile_sorted_bound:
  "sorted (map fst ts) \<Longrightarrow> x \<in> set (dropWhile (\<lambda>u. fst u \<le> b) ts) \<Longrightarrow> b < fst x"
proof (induction ts)
  case Nil
  then show ?case by simp
next
  case (Cons t ts)
  show ?case
  proof (cases "fst t \<le> b")
    case True
    with Cons show ?thesis by simp
  next
    case False
    with Cons.prems show ?thesis by auto
  qed
qed

lemma sorted_dropWhile_fst: "sorted (map fst ts) \<Longrightarrow> sorted (map fst (dropWhile P ts))"
  by (induction ts) auto

lemma now_elapse: "now (elapse g d w) = now w + d"
  by (simp add: elapse_def Let_def)

lemma timers_inv_elapse:
  assumes "timers_inv w"
  shows "timers_inv (elapse g d w)"
proof -
  from assms have s: "sorted (map fst (timers w))" by (simp add: timers_inv_def)
  from dropWhile_sorted_bound [OF s, of _ "now w + d"] sorted_dropWhile_fst [OF s]
  show ?thesis by (simp add: timers_inv_def timers_elapse now_elapse list_all_iff)
qed

lemma timers_inv_handle: "timers_inv w \<Longrightarrow> timers_inv (handle g ev w)"
proof (cases ev)
  case DOMContentLoaded
  assume "timers_inv w"
  moreover have "timers_inv (initializeProjectGallery g w) = timers_inv w"
    by (rule timers_inv_frame) simp_all
  ultimately show ?thesis using DOMContentLoaded by (simp add: handle_def)
next
  case (CallShowArch i)
  assume "timers_inv w"
  moreover have "timers_inv (run_callback (showProjectImages (Some i) g) w) = timers_inv w"
    by (rule timers_inv_frame) (simp_all add: run_callback_show_timers)
  ultimately show ?thesis using CallShowArch by (simp add: handle_def)
next
  case (KeyDown key)
  assume a: "timers_inv w"
  have "timers_inv (fold (run_listener g key) ls w)" for ls
    by (rule fold_invariant [where P = timers_inv]) (simp_all add: timers_inv_run_listener a)
  then show ?thesis using KeyDown by (simp add: handle_def)
next
  case (PreloadLoad l)
  assume "timers_inv w"
  moreover have "timers_inv (preload_onload l w) = timers_inv w"
    by (rule timers_inv_frame) (simp_all add: preload_onload_def Let_def resolve_def)
  ultimately show ?thesis using PreloadLoad by (simp add: handle_def)
next
  case (PreloadError l)
  assume "timers_inv w"
  moreover have "timers_inv (preload_onerror l w) = timers_inv w"
    by (rule timers_inv_frame)
       (simp_all add: preload_onerror_def Let_def reject_def split: media.splits option.splits)
  ultimately show ?thesis using PreloadError by (simp add: handle_def)
qed (simp_all add: handle_def overlay_onclick_def timers_inv_closePreview loadHandler_def
       content_onerror_def timers_inv_setTimeout timers_inv_elapse)

lemma timers_inv_step: "timers_inv w \<Longrightarrow> timers_inv (step g ev w)"
proof -
  assume "timers_inv w"
  then have "timers_inv (handle g ev w)" by (rule timers_inv_handle)
  moreover have "timers_inv (microtasks (handle g ev w)) = timers_inv (handle g ev w)"
    by (rule timers_inv_frame) simp_all
  ultimately show ?thesis by (simp add: step_def)
qed

lemma timers_inv_run: "timers_inv w \<Longrightarrow> timers_inv (run g es w)"
  unfolding run_def by (rule fold_invariant [where P = timers_inv]) (simp_all add: timers_inv_step)

lemma now_run_listener [simp]: "now (run_listener g key l w) = now w"
  by (cases l) (simp_all add: run_listener_def ui_defs prim_defs Let_def)

lemma now_handle: "now (handle g ev w) = now w + elapsed [ev]"
proof (cases ev)
  case (KeyDown key)
  have "now (fold (run_listener g key) ls w) = now w" for ls
    by (rule fold_invariant [where P = "\<lambda>s::world. now s = now w"]) simp_all
  then show ?thesis using KeyDown by (simp add: handle_def)
qed (simp_all add: handle_def run_callback_show_timers ui_defs prim_defs now_elapse
       preload_onload_def preload_onerror_def resolve_def reject_def Let_def
       split: media.splits option.splits)

lemma now_step: "now (step g ev w) = now w + elapsed [ev]"
  by (simp add: step_def now_handle)

lemma elapsed_Cons: "elapsed (ev # es) = elapsed [ev] + elapsed es"
  by (cases ev) simp_all

lemma now_run: "now (run g es w) = now w + elapsed es"
proof (induction es arbitrary: w)
  case Nil
  then show ?case by (simp add: run_def)
next
  case (Cons ev es)
  have "run g (ev # es) w = run g es (step g ev w)" by (simp add: run_def)
  with Cons [of "step g ev w"] show ?case
    using elapsed_Cons [of ev es] by (simp add: now_step)
qed

subsection \<open>A removed overlay never comes back\<close>

lemma gone_frame:
  "nodes w' = nodes w \<Longrightarrow> document w' = document w \<Longrightarrow> listeners w' = listeners w \<Longrightarrow>
   gone oid w' = gone oid w"
  using overlay_inv_frame [of w' w] by (simp add: gone_def)

lemma gone_update_node:
  assumes "gone oid w"
    and "\<And>ov. ''preview-overlay'' \<in> set (ov_classes ov) \<Longrightarrow> ''preview-overlay'' \<in> set (ov_classes (f ov))"
  shows "gone oid (update_node k f w)"
  using assms overlay_inv_update_node [of w f k] by (simp add: gone_def update_node_def)

lemma gone_setTimeout [simp]: "gone oid (setTimeout d a w) = gone oid w"
  by (simp add: gone_def setTimeout_def)

lemma gone_closePreview: "gone oid w \<Longrightarrow> gone oid (closePreview k w)"
  by (simp add: closePreview_def gone_update_node classList_remove_def)

lemma gone_loadHandler: "gone oid w \<Longrightarrow> gone oid (loadHandler k w)"
  by (simp add: loadHandler_def gone_update_node classList_remove_def classList_add_def)

lemma gone_content_onerror: "gone oid w \<Longrightarrow> gone oid (content_onerror k src w)"
  by (simp add: content_onerror_def gone_update_node)

lemma gone_run_listener: "gone oid w \<Longrightarrow> gone oid (run_listener g key l w)"
  by (cases l) (simp_all add: run_listener_def escHandler_def keyNavHandler_def Let_def gone_closePreview)

lemma gone_cleanup: "gone oid w \<Longrightarrow> gone oid (cleanup k w)"
  using overlay_inv_cleanup [of w k] set_remove1_subset [of k "document w"]
  by (auto simp: gone_def cleanup_def prim_defs)

lemma cleanup_gone:
  assumes "overlay_inv w" and "oid < length (nodes w)"
  shows "gone oid (cleanup oid w)"
proof -
  have "oid \<notin> set (document (cleanup oid w))"
    by (rule overlay_inv_cases [OF assms(1)]) (simp_all add: cleanup_def prim_defs)
  with overlay_inv_cleanup [OF assms(1), of oid] assms(2) show ?thesis
    by (simp add: gone_def cleanup_def prim_defs)
qed

lemma showProjectImages_ui:
  assumes "showProjectImages index images w = Inr w'"
  shows "\<exists>src v. nodes w' = nodes (showPreview src v w) \<and>
           document w' = document (showPreview src v w) \<and>
           listeners w' = listeners (showPreview src v w)"
proof -
  from showProjectImages_cases [of index images w] assms
  obtain i where "w' = (let src = images ! nat i;
                 w1 = showPreview src (endsWith src ''.mp4'' \<or> endsWith src ''.webm'') w;
                 nextSrc = images ! nat ((i + 1) mod int (length images))
             in if (i + 1) mod int (length images) = i then w1
                else catch_warn (fst (preload nextSrc w1)) (''Failed to preload: '' @ nextSrc)
                       (snd (preload nextSrc w1)))"
    by auto
  then show ?thesis by (cases "(i + 1) mod int (length images) = i") (auto simp: Let_def)
qed

lemma nodes_showProjectImages:
  "length (nodes w) \<le> length (nodes (run_callback (showProjectImages index images) w))"
proof (cases "showProjectImages index images w")
  case (Inl e)
  then show ?thesis by (simp add: run_callback_def)
next
  case (Inr w')
  from showProjectImages_ui [OF Inr] Inr show ?thesis
    by (auto simp: run_callback_def showPreview_nodes)
qed

lemma document_showProjectImages:
  assumes "overlay_inv w"
  shows "document (run_callback (showProjectImages index images) w) = document w \<or>
         document (run_callback (showProjectImages index images) w) = [length (nodes w)]"
proof (cases "showProjectImages index images w")
  case (Inl e)
  then show ?thesis by (simp add: run_callback_def)
next
  case (Inr w')
  from showProjectImages_ui [OF Inr] Inr showPreview_inv(1) [OF assms] show ?thesis
    by (auto simp: run_callback_def)
qed

lemma gone_showProjectImages:
  assumes "gone oid w"
  shows "gone oid (run_callback (showProjectImages index images) w)"
proof -
  from assms have i: "overlay_inv w" and l: "oid < length (nodes w)" and d: "oid \<notin> set (document w)"
    by (simp_all add: gone_def)
  from document_showProjectImages [OF i, of index images] l d
  have "oid \<notin> set (document (run_callback (showProjectImages index images) w))" by auto
  with overlay_inv_showProjectImages [OF i, of index images]
    nodes_showProjectImages [of w index images] l
  show ?thesis by (simp add: gone_def)
qed

lemma gone_run_timer: "gone oid w \<Longrightarrow> gone oid (run_timer g a w)"
  by (cases a) (simp_all add: run_timer_def gone_cleanup gone_showProjectImages)

lemma gone_now [simp]: "gone oid (w\<lparr>now := t\<rparr>) = gone oid w" "gone oid (w\<lparr>timers := ts\<rparr>) = gone oid w"
  by (simp_all add: gone_def)

lemma gone_fire: "gone oid w \<Longrightarrow> gone oid (fire g t w)"
  by (simp add: fire_def gone_run_timer)

lemma gone_fold_fire: "gone oid w \<Longrightarrow> gone oid (fold (fire g) ts w)"
  by (rule fold_invariant [where P = "gone oid"]) (simp_all add: gone_fire)

lemma gone_elapse: "gone oid w \<Longrightarrow> gone oid (elapse g d w)"
  by (simp add: elapse_def Let_def gone_fold_fire)

lemma gone_handle: "gone oid w \<Longrightarrow> gone oid (handle g ev w)"
proof (cases ev)
  case DOMContentLoaded
  assume "gone oid w"
  moreover have "gone oid (initializeProjectGallery g w) = gone oid w"
    by (rule gone_frame) simp_all
  ultimately show ?thesis using DOMContentLoaded by (simp add: handle_def)
next
  case (KeyDown key)
  assume a: "gone oid w"
  have "gone oid (fold (run_listener g key) ls w)" for ls
    by (rule fold_invariant [where P = "gone oid"]) (simp_all add: gone_run_listener a)
  then show ?thesis using KeyDown by (simp add: handle_def)
next
  case (PreloadLoad l)
  assume "gone oid w"
  moreover have "gone oid (preload_onload l w) = gone oid w"
    by (rule gone_frame) (simp_all add: preload_onload_def Let_def resolve_def)
  ultimately show ?thesis using PreloadLoad by (simp add: handle_def)
next
  case (PreloadError l)
  assume "gone oid w"
  moreover have "gone oid (preload_onerror l w) = gone oid w"
    by (rule gone_frame)
       (simp_all add: preload_onerror_def Let_def reject_def split: media.splits option.splits)
  ultimately show ?thesis using PreloadError by (simp add: handle_def)
qed (simp_all add: handle_def gone_showProjectImages gone_closePreview
       gone_loadHandler gone_content_onerror gone_elapse overlay_onclick_def)

lemma gone_step: "gone oid w \<Longrightarrow> gone oid (step g ev w)"
proof -
  assume "gone oid w"
  then have "gone oid (handle g ev w)" by (rule gone_handle)
  moreover have "gone oid (microtasks (handle g ev w)) = gone oid (handle g ev w)"
    by (rule gone_frame) simp_all
  ultimately show ?thesis by (simp add: step_def)
qed

lemma nodes_step: "length (nodes w) \<le> length (nodes (step g ev w))"
proof -
  have f: "length (nodes s) \<le> length (nodes (fire g t s))" for s t
    by (cases "snd t")
       (simp_all add: fire_def run_timer_def cleanup_def prim_defs
          order_trans [OF _ nodes_showProjectImages])
  have e: "length (nodes w) \<le> length (nodes (fold (fire g) ts s))"
    if "length (nodes w) \<le> length (nodes s)" for ts s
    using that
    by (rule fold_invariant [where P = "\<lambda>s::world. length (nodes w) \<le> length (nodes s)", rotated])
       (use f order_trans in blast)
  have k: "length (nodes (fold (run_listener g key) ls w)) = length (nodes w)" for key ls
    by (rule fold_invariant [where P = "\<lambda>s::world. length (nodes s) = length (nodes w)"])
       (simp_all add: run_listener_def ui_defs prim_defs Let_def split: listener.splits)
  have "length (nodes w) \<le> length (nodes (handle g ev w))"
    by (cases ev)
       (simp_all add: handle_def nodes_showProjectImages k ui_defs prim_defs elapse_def Let_def e
          preload_onload_def preload_onerror_def resolve_def reject_def
          split: media.splits option.splits)
  then show ?thesis by (simp add: step_def)
qed

subsection \<open>A pending cleanup removes its overlay\<close>

lemma timers_run_listener: "x \<in> set (timers w) \<Longrightarrow> x \<in> set (timers (run_listener g key l w))"
  by (cases l) (simp_all add: run_listener_def ui_defs prim_defs Let_def)

lemma timers_handle_keep:
  assumes "x \<in> set (timers w)" and "elapsed [ev] = 0 \<and> (\<forall>d. ev \<noteq> Elapse d)"
  shows "x \<in> set (timers (handle g ev w))"
proof (cases ev)
  case (KeyDown key)
  have "x \<in> set (timers (fold (run_listener g key) ls w))" for ls
    by (rule fold_invariant [where P = "\<lambda>s::world. x \<in> set (timers s)"])
       (simp_all add: timers_run_listener assms(1))
  then show ?thesis using KeyDown by (simp add: handle_def)
qed (use assms in \<open>simp_all add: handle_def run_callback_show_timers ui_defs prim_defs
       preload_onload_def preload_onerror_def resolve_def reject_def Let_def
       split: media.splits option.splits\<close>)

lemma mem_dropWhile: "x \<in> set ts \<Longrightarrow> \<not> P x \<Longrightarrow> x \<in> set (dropWhile P ts)"
  by (induction ts) auto

lemma pending_step:
  assumes "x \<in> set (timers w)" and "now (step g ev w) < fst x"
  shows "x \<in> set (timers (step g ev w))"
proof (cases "\<exists>d. ev = Elapse d")
  case True
  then obtain d where e: "ev = Elapse d" ..
  with assms(2) have "\<not> fst x \<le> now w + d" by (simp add: now_step)
  from mem_dropWhile [OF assms(1), of "\<lambda>u. fst u \<le> now w + d", OF this] e
  show ?thesis by (simp add: step_def handle_def timers_elapse)
next
  case False
  then have "elapsed [ev] = 0 \<and> (\<forall>d. ev \<noteq> Elapse d)" by (cases ev) simp_all
  from timers_handle_keep [OF assms(1) this] show ?thesis by (simp add: step_def)
qed

lemma pending_run:
  assumes "x \<in> set (timers w)" and "now w + elapsed es < fst x"
  shows "x \<in> set (timers (run g es w))"
  using assms
proof (induction es arbitrary: w)
  case Nil
  then show ?case by (simp add: run_def)
next
  case (Cons ev es)
  from Cons.prems(2) elapsed_Cons [of ev es]
  have a: "now (step g ev w) < fst x" and b: "now (step g ev w) + elapsed es < fst x"
    by (simp_all add: now_step)
  from Cons.IH [OF pending_step [OF Cons.prems(1) a] b] show ?case by (simp add: run_def)
qed

lemma sorted_takeWhile_mem:
  "sorted (map fst ts) \<Longrightarrow> x \<in> set ts \<Longrightarrow> fst x \<le> b \<Longrightarrow> x \<in> set (takeWhile (\<lambda>u. fst u \<le> b) ts)"
  by (induction ts) auto

lemma nodes_fire: "length (nodes w) \<le> length (nodes (fire g t w))"
  by (cases "snd t")
     (simp_all add: fire_def run_timer_def cleanup_def prim_defs
        order_trans [OF _ nodes_showProjectImages])

lemma fold_fire_cleanup:
  assumes "overlay_inv w" and "oid < length (nodes w)" and "(d0, Cleanup oid) \<in> set ts"
  shows "gone oid (fold (fire g) ts w)"
  using assms
proof (induction ts arbitrary: w)
  case Nil
  then show ?case by simp
next
  case (Cons t ts)
  show ?case
  proof (cases "t = (d0, Cleanup oid)")
    case True
    have "gone oid (cleanup oid (w\<lparr>now := d0\<rparr>))"
      by (rule cleanup_gone) (use Cons.prems in simp_all)
    then have "gone oid (fire g t w)" using True by (simp add: fire_def run_timer_def)
    from gone_fold_fire [OF this] show ?thesis by simp
  next
    case False
    with Cons.prems(3) have m: "(d0, Cleanup oid) \<in> set ts" by simp
    from nodes_fire [of w g t] Cons.prems(2) have l: "oid < length (nodes (fire g t w))" by linarith
    from Cons.IH [OF overlay_inv_fire [OF Cons.prems(1)] l m] show ?thesis by simp
  qed
qed

lemma removal_step:
  assumes "overlay_inv w" and "timers_inv w" and "oid < length (nodes w)"
    and "(d0, Cleanup oid) \<in> set (timers w)"
  shows "(d0, Cleanup oid) \<in> set (timers (step g ev w)) \<or> gone oid (step g ev w)"
proof (cases "now (step g ev w) < d0")
  case True
  from pending_step [OF assms(4)] True show ?thesis by simp
next
  case False
  from assms(2,4) have n: "now w < d0" by (auto simp: timers_inv_def list_all_iff)
  from False n obtain d where e: "ev = Elapse d" by (cases ev) (simp_all add: now_step)
  with False have "d0 \<le> now w + d" by (simp add: now_step)
  with assms(2,4) have "(d0, Cleanup oid) \<in> set (takeWhile (\<lambda>u. fst u \<le> now w + d) (timers w))"
    by (simp add: timers_inv_def sorted_takeWhile_mem)
  from fold_fire_cleanup [OF _ _ this, of "w\<lparr>timers := dropWhile (\<lambda>u. fst u \<le> now w + d) (timers w)\<rparr>" g]
    assms(1,3)
  have "gone oid (elapse g d w)" by (simp add: elapse_def Let_def)
  then have "gone oid (handle g ev w)" using e by (simp add: handle_def)
  moreover have "gone oid (microtasks (handle g ev w)) = gone oid (handle g ev w)"
    by (rule gone_frame) simp_all
  ultimately show ?thesis by (simp add: step_def)
qed

lemma removal_run:
  assumes "overlay_inv w" and "timers_inv w" and "oid < length (nodes w)"
    and "(d0, Cleanup oid) \<in> set (timers w) \<or> gone oid w"
  shows "(d0, Cleanup oid) \<in> set (timers (run g es w)) \<or> gone oid (run g es w)"
  using assms
proof (induction es arbitrary: w)
  case Nil
  then show ?case by (simp add: run_def)
next
  case (Cons ev es)
  have i: "overlay_inv (step g ev w)" by (rule overlay_inv_step [OF Cons.prems(1)])
  have t: "timers_inv (step g ev w)" by (rule timers_inv_step [OF Cons.prems(2)])
  from nodes_step [of w g ev] Cons.prems(3) have l: "oid < length (nodes (step g ev w))" by linarith
  have "(d0, Cleanup oid) \<in> set (timers (step g ev w)) \<or> gone oid (step g ev w)"
    using Cons.prems(4)
  proof
    assume "(d0, Cleanup oid) \<in> set (timers w)"
    from removal_step [OF Cons.prems(1,2,3) this] show ?thesis .
  next
    assume "gone oid w"
    then show ?thesis by (simp add: gone_step)
  qed
  from Cons.IH [OF i t l this] show ?case by (simp add: run_def)
qed

lemma gone_listeners:
  assumes "gone oid w"
  shows "EscHandler oid \<notin> set (listeners w)" and "KeyNavHandler oid \<notin> set (listeners w)"
  using assms by (auto simp: gone_def overlay_inv_def)

lemma failure_markup_shape:
  "\<exists>pre post. \<forall>s. failure_markup s = pre @ ''Failed to load: '' @ s @ post"
proof -
  have \<open>\<forall>s. failure_markup s =
      ([CHR 0x0A] @ ''            <div style="color: white; text-align: center;">'' @
       [CHR 0x0A] @ ''                '' @
       [CHR 0xE5, CHR 0x8A, CHR 0xA0, CHR 0xE8, CHR 0xBD, CHR 0xBD, CHR 0xE5, CHR 0xA4, CHR 0xB1, CHR 0xE8, CHR 0xB4, CHR 0xA5, CHR 0xEF, CHR 0xBC, CHR 0x8C, CHR 0xE8, CHR 0xAF, CHR 0xB7, CHR 0xE9, CHR 0x87, CHR 0x8D, CHR 0xE8, CHR 0xAF, CHR 0x95] @
       ''<br>'' @ [CHR 0x0A] @ ''                <small style="opacity: 0.7;">'') @
      ''Failed to load: '' @ s @ (''</small>'' @ [CHR 0x0A] @ ''            </div>'' @ [CHR 0x0A] @ ''        '')\<close>
    by (simp add: failure_markup_def)
  then show ?thesis by blast
qed

subsection \<open>A content load error\<close>

text \<open>
  C8. When the content element of an existing overlay fires its error signal, the
  overlay's contents become exactly the markup of the script's template: the styled
  \<open>div\<close> holding the Chinese sentence of the template (its UTF-8 bytes), a line break and
  the \<open>small\<close> element with \<open>Failed to load: \<close> followed by the overlay's source
  identifier; and a timer is set for \<open>cleanup\<close> 2000 ms later. The timer stays pending
  while less than 2000 ms have passed; once 2000 ms have passed, whatever else happened
  meanwhile, the overlay is out of the document and neither of its two keydown listeners
  is attached.
\<close>

theorem content_error_overlay:
  assumes "oid < length (nodes (run g es0 init))"
  shows \<open>ov_contents (nodes (step g (ContentError oid) (run g es0 init)) ! oid) =
           Markup
             ([CHR 0x0A] @ ''            <div style="color: white; text-align: center;">'' @
              [CHR 0x0A] @ ''                '' @
              [CHR 0xE5, CHR 0x8A, CHR 0xA0, CHR 0xE8, CHR 0xBD, CHR 0xBD, CHR 0xE5, CHR 0xA4, CHR 0xB1, CHR 0xE8, CHR 0xB4,
               CHR 0xA5, CHR 0xEF, CHR 0xBC, CHR 0x8C, CHR 0xE8, CHR 0xAF, CHR 0xB7, CHR 0xE9, CHR 0x87, CHR 0x8D, CHR 0xE8, CHR 0xAF, CHR 0x95] @
              ''<br>'' @
              [CHR 0x0A] @ ''                <small style="opacity: 0.7;">Failed to load: '' @
              ov_src (nodes (run g es0 init) ! oid) @ ''</small>'' @
              [CHR 0x0A] @ ''            </div>'' @
              [CHR 0x0A] @ ''        '') \<and>
         ov_contents (nodes (step g (ContentError oid) (run g es0 init)) ! oid) =
           Markup (failure_markup (ov_src (nodes (run g es0 init) ! oid))) \<and>
         (\<exists>pre post. \<forall>s. failure_markup s = pre @ ''Failed to load: '' @ s @ post) \<and>
         (now (run g es0 init) + 2000, Cleanup oid) \<in>
           set (timers (step g (ContentError oid) (run g es0 init))) \<and>
         (elapsed es < 2000 \<longrightarrow>
            (now (run g es0 init) + 2000, Cleanup oid) \<in>
              set (timers (run g es (step g (ContentError oid) (run g es0 init))))) \<and>
         (2000 \<le> elapsed es \<longrightarrow>
            oid \<notin> set (document (run g es (step g (ContentError oid) (run g es0 init)))) \<and>
            EscHandler oid \<notin> set (listeners (run g es (step g (ContentError oid) (run g es0 init)))) \<and>
            KeyNavHandler oid \<notin> set (listeners (run g es (step g (ContentError oid) (run g es0 init)))))\<close>
proof -
  let ?w = "run g es0 init"
  let ?w1 = "step g (ContentError oid) ?w"
  let ?w2 = "run g es ?w1"
  let ?d0 = "now ?w + 2000"
  have i: "overlay_inv ?w" by (rule overlay_inv_run [OF overlay_inv_init])
  have t: "timers_inv ?w" by (rule timers_inv_run [OF timers_inv_init])
  have i1: "overlay_inv ?w1" by (rule overlay_inv_step [OF i])
  have t1: "timers_inv ?w1" by (rule timers_inv_step [OF t])
  from nodes_step [of ?w g "ContentError oid"] assms have l1: "oid < length (nodes ?w1)" by linarith
  have c: "ov_contents (nodes ?w1 ! oid) = Markup (failure_markup (ov_src (nodes ?w ! oid)))"
    using assms by (simp add: step_def handle_def content_onerror_def prim_defs)
  have m: \<open>failure_markup s =
             [CHR 0x0A] @ ''            <div style="color: white; text-align: center;">'' @
             [CHR 0x0A] @ ''                '' @
             [CHR 0xE5, CHR 0x8A, CHR 0xA0, CHR 0xE8, CHR 0xBD, CHR 0xBD, CHR 0xE5, CHR 0xA4, CHR 0xB1, CHR 0xE8, CHR 0xB4,
              CHR 0xA5, CHR 0xEF, CHR 0xBC, CHR 0x8C, CHR 0xE8, CHR 0xAF, CHR 0xB7, CHR 0xE9, CHR 0x87, CHR 0x8D, CHR 0xE8, CHR 0xAF, CHR 0x95] @
             ''<br>'' @
             [CHR 0x0A] @ ''                <small style="opacity: 0.7;">Failed to load: '' @
             s @ ''</small>'' @
             [CHR 0x0A] @ ''            </div>'' @
             [CHR 0x0A] @ ''        ''\<close> for s
    by (simp add: failure_markup_def)
  have p: "(?d0, Cleanup oid) \<in> set (timers ?w1)"
    using assms by (simp add: step_def handle_def content_onerror_def prim_defs)
  have n1: "now ?w1 = now ?w" by (simp add: now_step)
  have early: "(?d0, Cleanup oid) \<in> set (timers ?w2)" if "elapsed es < 2000"
    by (rule pending_run [OF p]) (use that n1 in simp)
  have late: "oid \<notin> set (document ?w2) \<and> EscHandler oid \<notin> set (listeners ?w2) \<and>
      KeyNavHandler oid \<notin> set (listeners ?w2)" if "2000 \<le> elapsed es"
  proof -
    from removal_run [OF i1 t1 l1, of ?d0 g es] p
    have "(?d0, Cleanup oid) \<in> set (timers ?w2) \<or> gone oid ?w2" by simp
    moreover have "(?d0, Cleanup oid) \<notin> set (timers ?w2)"
    proof
      assume "(?d0, Cleanup oid) \<in> set (timers ?w2)"
      with timers_inv_run [OF t1, of g es] have "now ?w2 < ?d0"
        by (auto simp: timers_inv_def list_all_iff)
      with that n1 show False by (simp add: now_run)
    qed
    ultimately have "gone oid ?w2" by simp
    with gone_listeners [OF this] show ?thesis by (simp add: gone_def)
  qed
  from c have c': \<open>ov_contents (nodes ?w1 ! oid) =
           Markup
             ([CHR 0x0A] @ ''            <div style="color: white; text-align: center;">'' @
              [CHR 0x0A] @ ''                '' @
              [CHR 0xE5, CHR 0x8A, CHR 0xA0, CHR 0xE8, CHR 0xBD, CHR 0xBD, CHR 0xE5, CHR 0xA4, CHR 0xB1, CHR 0xE8, CHR 0xB4,
               CHR 0xA5, CHR 0xEF, CHR 0xBC, CHR 0x8C, CHR 0xE8, CHR 0xAF, CHR 0xB7, CHR 0xE9, CHR 0x87, CHR 0x8D, CHR 0xE8, CHR 0xAF, CHR 0x95] @
              ''<br>'' @
              [CHR 0x0A] @ ''                <small style="opacity: 0.7;">Failed to load: '' @
              ov_src (nodes ?w ! oid) @ ''</small>'' @
              [CHR 0x0A] @ ''            </div>'' @
              [CHR 0x0A] @ ''        '')\<close>
    unfolding m .
  from c c' failure_markup_shape p early late show ?thesis by blast
qed

theorem content_error_overlay_witness:
  \<open>0 < length (nodes (run archProjectImages [CallShowArch 4] init)) \<and>
   ov_contents (nodes (step archProjectImages (ContentError 0)
       (run archProjectImages [CallShowArch 4] init)) ! 0) =
     Markup
       ([CHR 0x0A] @ ''            <div style="color: white; text-align: center;">'' @
        [CHR 0x0A] @ ''                '' @
        [CHR 0xE5, CHR 0x8A, CHR 0xA0, CHR 0xE8, CHR 0xBD, CHR 0xBD, CHR 0xE5, CHR 0xA4, CHR 0xB1, CHR 0xE8, CHR 0xB4,
         CHR 0xA5, CHR 0xEF, CHR 0xBC, CHR 0x8C, CHR 0xE8, CHR 0xAF, CHR 0xB7, CHR 0xE9, CHR 0x87, CHR 0x8D, CHR 0xE8, CHR 0xAF, CHR 0x95] @
        ''<br>'' @
        [CHR 0x0A] @ ''                <small style="opacity: 0.7;">Failed to load: '' @
        ''images/arch5.jpg'' @ ''</small>'' @
        [CHR 0x0A] @ ''            </div>'' @
        [CHR 0x0A] @ ''        '') \<and>
   document (step archProjectImages (ContentError 0) (run archProjectImages [CallShowArch 4] init)) = [0] \<and>
   0 \<notin> set (document (run archProjectImages [Elapse 1500, KeyDown ''Enter'', Elapse 500]
       (step archProjectImages (ContentError 0) (run archProjectImages [CallShowArch 4] init)))) \<and>
   EscHandler 0 \<notin> set (listeners (run archProjectImages [Elapse 1500, KeyDown ''Enter'', Elapse 500]
       (step archProjectImages (ContentError 0) (run archProjectImages [CallShowArch 4] init)))) \<and>
   KeyNavHandler 0 \<notin> set (listeners (run archProjectImages [Elapse 1500, KeyDown ''Enter'', Elapse 500]
       (step archProjectImages (ContentError 0) (run archProjectImages [CallShowArch 4] init)))) \<and>
   (2000, Cleanup 0) \<in> set (timers (run archProjectImages [Elapse 1500, KeyDown ''Enter'', Elapse 499]
       (step archProjectImages (ContentError 0) (run archProjectImages [CallShowArch 4] init))))\<close>
proof -
  have h: "0 < length (nodes (run archProjectImages [CallShowArch 4] init))" by code_simp
  have s: "ov_src (nodes (run archProjectImages [CallShowArch 4] init) ! 0) = ''images/arch5.jpg''"
    "now (run archProjectImages [CallShowArch 4] init) = 0"
    "document (step archProjectImages (ContentError 0) (run archProjectImages [CallShowArch 4] init)) = [0]"
    by code_simp+
  have e: "elapsed [Elapse 1500, KeyDown ''Enter'', Elapse 500] = 2000"
    "elapsed [Elapse 1500, KeyDown ''Enter'', Elapse 499] = 1999" by simp_all
  from content_error_overlay [OF h, of "[Elapse 1500, KeyDown ''Enter'', Elapse 500]"]
    content_error_overlay [OF h, of "[Elapse 1500, KeyDown ''Enter'', Elapse 499]"] h s e
  show ?thesis by simp
qed

subsection \<open>Settled loads and cached elements name their identifier\<close>

lemma store_ok_init: "store_ok init"
  by (simp add: store_ok_def init_def)

lemma store_ok_frame:
  "cache w' = cache w \<Longrightarrow> loads w' = loads w \<Longrightarrow> store_ok w' = store_ok w"
  by (simp add: store_ok_def)

lemma store_ok_cached:
  "store_ok w \<Longrightarrow> map_of (cache w) src = Some h \<Longrightarrow> el_src h = src"
  by (auto simp: store_ok_def list_all_iff dest!: map_of_SomeD)

lemma store_ok_preload: "store_ok w \<Longrightarrow> store_ok (snd (preload src w))"
  by (simp add: store_ok_def preload_loads load_ok_def split: option.splits)

lemma store_ok_preload_each: "store_ok w \<Longrightarrow> store_ok (snd (preload_each srcs w))"
  by (induction srcs arbitrary: w) (simp_all add: case_prod_unfold Let_def store_ok_preload)

lemma store_ok_preloadAll: "store_ok w \<Longrightarrow> store_ok (snd (preloadAll srcs w))"
  using store_ok_preload_each [of w srcs]
  by (simp add: store_ok_def preloadAll_batches)

lemma store_ok_batches [simp]:
  "store_ok (w\<lparr>batches := bs\<rparr>) = store_ok w"
  "store_ok (w\<lparr>now := t\<rparr>) = store_ok w"
  "store_ok (w\<lparr>timers := ts\<rparr>) = store_ok w"
  "store_ok (w\<lparr>nodes := ns\<rparr>) = store_ok w"
  "store_ok (w\<lparr>document := ds\<rparr>) = store_ok w"
  "store_ok (w\<lparr>listeners := ls\<rparr>) = store_ok w"
  by (simp_all add: store_ok_def)

lemma store_ok_then_callback: "store_ok w \<Longrightarrow> store_ok (then_callback images w)"
  by (simp add: then_callback_def Let_def store_ok_preloadAll)

lemma store_ok_fire_batch: "store_ok w \<Longrightarrow> store_ok (fire_batch bid w)"
  by (simp add: fire_batch_def store_ok_then_callback split: option.splits)

lemma store_ok_microtasks: "store_ok w \<Longrightarrow> store_ok (microtasks w)"
  unfolding microtasks_def
  by (rule fold_invariant [where P = store_ok]) (simp_all add: store_ok_fire_batch)

lemma store_ok_initializeProjectGallery: "store_ok w \<Longrightarrow> store_ok (initializeProjectGallery images w)"
  using store_ok_preloadAll [of w "take 5 images"]
  by (simp add: initializeProjectGallery_def Let_def case_prod_unfold)

lemma store_ok_showPreview [simp]: "store_ok (showPreview src v w) = store_ok w"
  by (rule store_ok_frame) simp_all

lemma store_ok_catch_warn_preload:
  "store_ok w \<Longrightarrow> store_ok (catch_warn (fst (preload s w)) m (snd (preload s w)))"
  by (simp add: catch_warn_preload store_ok_def load_ok_def split: option.splits)

lemma store_ok_showProjectImages:
  assumes "store_ok w"
  shows "store_ok (run_callback (showProjectImages index images) w)"
proof (cases "showProjectImages index images w")
  case (Inl e)
  with assms show ?thesis by (simp add: run_callback_def store_ok_def)
next
  case (Inr w')
  from showProjectImages_cases [of index images w] Inr
  obtain i where "w' = (let src = images ! nat i;
                 w1 = showPreview src (endsWith src ''.mp4'' \<or> endsWith src ''.webm'') w;
                 nextSrc = images ! nat ((i + 1) mod int (length images))
             in if (i + 1) mod int (length images) = i then w1
                else catch_warn (fst (preload nextSrc w1)) (''Failed to preload: '' @ nextSrc)
                       (snd (preload nextSrc w1)))"
    by auto
  with assms have "store_ok w'"
    by (cases "(i + 1) mod int (length images) = i")
       (simp_all add: Let_def store_ok_catch_warn_preload)
  with Inr show ?thesis by (simp add: run_callback_def)
qed

lemma store_ok_run_timer: "store_ok w \<Longrightarrow> store_ok (run_timer g a w)"
  by (cases a) (simp_all add: run_timer_def store_ok_showProjectImages cleanup_def prim_defs)

lemma store_ok_fire: "store_ok w \<Longrightarrow> store_ok (fire g t w)"
  by (simp add: fire_def store_ok_run_timer)

lemma store_ok_elapse: "store_ok w \<Longrightarrow> store_ok (elapse g d w)"
proof -
  assume a: "store_ok w"
  have "store_ok (fold (fire g) ts (w\<lparr>timers := later\<rparr>))" for ts later
    by (rule fold_invariant [where P = store_ok]) (use a in \<open>simp_all add: store_ok_fire\<close>)
  then show ?thesis by (simp add: elapse_def Let_def)
qed

lemma set_AList_update: "set (AList.update k v al) \<subseteq> insert (k, v) (set al)"
  by (induction al) auto

lemma list_all_update_one: "list_all P xs \<Longrightarrow> P x \<Longrightarrow> list_all P (xs[i := x])"
  using set_update_subset_insert [of xs i x] by (auto simp: list_all_iff)

lemma store_ok_preload_onload: "store_ok w \<Longrightarrow> store_ok (preload_onload lid w)"
proof (cases "lid < length (loads w)")
  case True
  assume a: "store_ok w"
  let ?l = "loads w ! lid"
  let ?h = "\<lparr>el_kind = l_kind ?l, el_src = l_src ?l, el_load = lid\<rparr>"
  have c: "list_all (\<lambda>e. el_src (snd e) = fst e) (AList.update (l_src ?l) ?h (cache w))"
    using a set_AList_update [of "l_src ?l" ?h "cache w"] by (auto simp: store_ok_def list_all_iff)
  have "load_ok (?l\<lparr>l_state := Fulfilled ?h\<rparr>)" by (simp add: load_ok_def)
  with a have "list_all load_ok ((loads w)[lid := ?l\<lparr>l_state := Fulfilled ?h\<rparr>])"
    by (simp add: store_ok_def list_all_update_one)
  with a c True show ?thesis by (simp add: store_ok_def preload_onload_def Let_def resolve_def)
next
  case False
  assume "store_ok w"
  with False show ?thesis by (simp add: preload_onload_def)
qed

lemma store_ok_preload_onerror: "store_ok w \<Longrightarrow> store_ok (preload_onerror lid w)"
proof (cases "lid < length (loads w)")
  case True
  assume a: "store_ok w"
  let ?l = "loads w ! lid"
  have "load_ok (?l\<lparr>l_state := Rejected (''Failed to load video: '' @ l_src ?l)\<rparr>)"
    "load_ok (?l\<lparr>l_state := Rejected (''Failed to load image: '' @ l_src ?l)\<rparr>)"
    by (simp_all add: load_ok_def)
  with a have "list_all load_ok ((loads w)[lid := ?l\<lparr>l_state := Rejected (''Failed to load video: '' @ l_src ?l)\<rparr>])"
    "list_all load_ok ((loads w)[lid := ?l\<lparr>l_state := Rejected (''Failed to load image: '' @ l_src ?l)\<rparr>])"
    by (simp_all add: store_ok_def list_all_update_one)
  with a True show ?thesis
    by (simp add: store_ok_def preload_onerror_def Let_def reject_def split: media.splits option.splits)
next
  case False
  assume "store_ok w"
  with False show ?thesis by (simp add: preload_onerror_def)
qed

lemma store_ok_handle: "store_ok w \<Longrightarrow> store_ok (handle g ev w)"
proof (cases ev)
  case (KeyDown key)
  assume a: "store_ok w"
  have "store_ok (fold (run_listener g key) ls w)" for ls
    by (rule fold_invariant [where P = store_ok])
       (use a in \<open>simp_all add: run_listener_def ui_defs prim_defs Let_def split: listener.splits\<close>)
  then show ?thesis using KeyDown by (simp add: handle_def)
qed (simp_all add: handle_def store_ok_initializeProjectGallery store_ok_showProjectImages
       store_ok_elapse store_ok_preload_onload store_ok_preload_onerror ui_defs prim_defs)

lemma store_ok_step: "store_ok w \<Longrightarrow> store_ok (step g ev w)"
  by (simp add: step_def store_ok_microtasks store_ok_handle)

lemma store_ok_run: "store_ok w \<Longrightarrow> store_ok (run g es w)"
  unfolding run_def by (rule fold_invariant [where P = store_ok]) (simp_all add: store_ok_step)

subsection \<open>The promises of a batch and the identifiers of the loads never change\<close>

lemma map_update_field:
  "map f (xs[i := g (xs ! i)]) = map f xs" if "\<And>x. f (g x) = f x"
  by (rule nth_equalityI) (simp_all add: nth_update_field [where f = f and g = g] that)

lemma slots_preloadAll:
  "map b_slots (batches (snd (preloadAll srcs w))) = map b_slots (batches w) @ [fst (preload_each srcs w)]"
  by (simp add: preloadAll_batches)

lemma slots_then_callback:
  "prefix (map b_slots (batches w)) (map b_slots (batches (then_callback images w)))"
  by (simp add: then_callback_def Let_def slots_preloadAll)

lemma slots_fire_batch:
  "prefix (map b_slots (batches w)) (map b_slots (batches (fire_batch bid w)))"
proof -
  let ?w' = "w\<lparr>batches := (batches w)[bid := (batches w ! bid)\<lparr>b_then := None\<rparr>]\<rparr>"
  have "map b_slots (batches ?w') = map b_slots (batches w)"
    using map_update_field [of b_slots "\<lambda>b. b\<lparr>b_then := None\<rparr>" "batches w" bid] by simp
  with slots_then_callback [of ?w']
  have "prefix (map b_slots (batches w)) (map b_slots (batches (then_callback images ?w')))" for images
    by simp
  then show ?thesis by (simp add: fire_batch_def split: option.splits)
qed

lemma slots_microtasks:
  "prefix (map b_slots (batches w)) (map b_slots (batches (microtasks w)))"
  unfolding microtasks_def
proof (rule fold_invariant [where P = "\<lambda>s::world. prefix (map b_slots (batches w)) (map b_slots (batches s))"])
  fix x and s :: world assume "prefix (map b_slots (batches w)) (map b_slots (batches s))"
  then show "prefix (map b_slots (batches w)) (map b_slots (batches (fire_batch x s)))"
    using slots_fire_batch prefix_order.trans by blast
qed simp

lemma slots_initializeProjectGallery:
  "prefix (map b_slots (batches w)) (map b_slots (batches (initializeProjectGallery images w)))"
proof -
  let ?w1 = "snd (preloadAll (take 5 images) w)"
  have "map b_slots (batches (initializeProjectGallery images w)) = map b_slots (batches ?w1)"
    using map_update_field [of b_slots "\<lambda>b. b\<lparr>b_then := Some images\<rparr>" "batches ?w1"
        "fst (preloadAll (take 5 images) w)"]
    by (simp add: initializeProjectGallery_def Let_def case_prod_unfold)
  then show ?thesis by (simp add: slots_preloadAll)
qed

lemma batches_run_callback_show [simp]:
  "batches (run_callback (showProjectImages index images) w) = batches w"
  by (cases "showProjectImages index images w")
     (simp_all add: run_callback_def showProjectImages_frame(2))

lemma batches_fire [simp]: "batches (fire g t w) = batches w"
  by (cases "snd t") (simp_all add: fire_def run_timer_def cleanup_def prim_defs)

lemma batches_elapse [simp]: "batches (elapse g d w) = batches w"
proof -
  have "batches (fold (fire g) ts s) = batches s" for ts and s :: world
    by (induction ts arbitrary: s) simp_all
  then show ?thesis by (simp add: elapse_def Let_def)
qed

lemma batches_run_listener [simp]: "batches (run_listener g key l w) = batches w"
  by (cases l) (simp_all add: run_listener_def ui_defs prim_defs Let_def)

lemma slots_handle:
  "prefix (map b_slots (batches w)) (map b_slots (batches (handle g ev w)))"
proof (cases ev)
  case (KeyDown key)
  have "batches (fold (run_listener g key) ls w) = batches w" for ls
    by (rule fold_invariant [where P = "\<lambda>s::world. batches s = batches w"]) simp_all
  then show ?thesis using KeyDown by (simp add: handle_def)
qed (simp_all add: handle_def slots_initializeProjectGallery ui_defs prim_defs
       preload_onload_def preload_onerror_def resolve_def reject_def Let_def
       split: media.splits option.splits)

lemma slots_step:
  "prefix (map b_slots (batches w)) (map b_slots (batches (step g ev w)))"
  using slots_handle [of w g ev] slots_microtasks [of "handle g ev w"]
  by (auto simp: step_def intro: prefix_order.trans)

lemma slots_run:
  "prefix (map b_slots (batches w)) (map b_slots (batches (run g es w)))"
  unfolding run_def
proof (rule fold_invariant [where P = "\<lambda>s::world. prefix (map b_slots (batches w)) (map b_slots (batches s))"])
  fix x and s :: world assume "prefix (map b_slots (batches w)) (map b_slots (batches s))"
  then show "prefix (map b_slots (batches w)) (map b_slots (batches (step g x s)))"
    using slots_step prefix_order.trans by blast
qed simp

lemma srcs_handle:
  "prefix (map l_src (loads w)) (map l_src (loads (handle g ev w)))"
proof (cases "is_signal ev")
  case True
  have "map l_src (loads (preload_onload l w)) = map l_src (loads w)" for l
    by (rule nth_equalityI) (simp_all add: preload_onload_loads)
  moreover have "map l_src (loads (preload_onerror l w)) = map l_src (loads w)" for l
    by (rule nth_equalityI) (simp_all add: preload_onerror_loads)
  ultimately show ?thesis using True by (cases ev) (simp_all add: handle_def)
next
  case False
  from handle_prefix [OF this] show ?thesis by (rule map_mono_prefix)
qed

lemma srcs_step:
  "prefix (map l_src (loads w)) (map l_src (loads (step g ev w)))"
  using srcs_handle [of w g ev] map_mono_prefix [OF microtasks_prefix [of "handle g ev w"], of l_src]
  by (auto simp: step_def intro: prefix_order.trans)

lemma srcs_run:
  "prefix (map l_src (loads w)) (map l_src (loads (run g es w)))"
  unfolding run_def
proof (rule fold_invariant [where P = "\<lambda>s::world. prefix (map l_src (loads w)) (map l_src (loads s))"])
  fix x and s :: world assume "prefix (map l_src (loads w)) (map l_src (loads s))"
  then show "prefix (map l_src (loads w)) (map l_src (loads (step g x s)))"
    using srcs_step prefix_order.trans by blast
qed simp

lemma slot_ok_mono:
  assumes "slot_ok w src p" and "prefix (map l_src (loads w)) (map l_src (loads w'))"
  shows "slot_ok w' src p"
proof (cases p)
  case (Immediate h)
  with assms(1) show ?thesis by simp
next
  case (OfLoad lid)
  with assms(1) have l: "lid < length (map l_src (loads w))" and s: "l_src (loads w ! lid) = src"
    by simp_all
  from prefix_nth [OF assms(2) l]
  have l': "lid < length (loads w')"
    and e: "map l_src (loads w') ! lid = map l_src (loads w) ! lid" by simp_all
  from l have l0: "lid < length (loads w)" by simp
  from e l' l0 have "l_src (loads w' ! lid) = l_src (loads w ! lid)" by simp
  with l' s OfLoad show ?thesis by simp
qed

lemma preload_slot_ok:
  "store_ok w \<Longrightarrow> slot_ok (snd (preload src w)) src (fst (preload src w))"
  by (auto simp: preload_promise preload_loads store_ok_cached split: option.splits)

lemma preload_each_slot_ok:
  assumes "store_ok w"
  shows "list_all2 (slot_ok (snd (preload_each srcs w))) srcs (fst (preload_each srcs w))"
  using assms
proof (induction srcs arbitrary: w)
  case Nil
  then show ?case by simp
next
  case (Cons s srcs)
  let ?w1 = "snd (preload s w)"
  let ?w2 = "snd (preload_each srcs ?w1)"
  have "slot_ok ?w1 s (fst (preload s w))" by (rule preload_slot_ok [OF Cons.prems])
  then have "slot_ok ?w2 s (fst (preload s w))"
    by (rule slot_ok_mono) (rule map_mono_prefix [OF preload_each_prefix])
  with Cons.IH [OF store_ok_preload [OF Cons.prems, of s]] show ?case
    by (simp add: case_prod_unfold Let_def)
qed

lemma preload_each_count:
  "length (loads (snd (preload_each srcs w))) =
     length (loads w) + length (filter (\<lambda>s. \<not> isCached s w) srcs)"
proof (induction srcs arbitrary: w)
  case Nil
  then show ?case by simp
next
  case (Cons s srcs)
  have "isCached x (snd (preload s w)) = isCached x w" for x by (simp add: isCached_def)
  with Cons [of "snd (preload s w)"] show ?case
    by (simp add: case_prod_unfold Let_def preload_loads isCached_def split: option.splits)
qed

subsection \<open>allSettled\<close>

lemma allSettled_None_iff: "allSettled ss = None \<longleftrightarrow> (\<exists>i<length ss. ss ! i = Pending)"
proof (induction ss)
  case Nil
  then show ?case by simp
next
  case (Cons s ss)
  have "(\<exists>i<length (s # ss). (s # ss) ! i = Pending) \<longleftrightarrow> s = Pending \<or> (\<exists>i<length ss. ss ! i = Pending)"
  proof
    assume "\<exists>i<length (s # ss). (s # ss) ! i = Pending"
    then obtain i where i: "i < length (s # ss)" "(s # ss) ! i = Pending" by blast
    show "s = Pending \<or> (\<exists>i<length ss. ss ! i = Pending)"
    proof (cases i)
      case 0
      with i show ?thesis by simp
    next
      case (Suc j)
      with i have "j < length ss" "ss ! j = Pending" by simp_all
      then show ?thesis by blast
    qed
  next
    assume "s = Pending \<or> (\<exists>i<length ss. ss ! i = Pending)"
    then show "\<exists>i<length (s # ss). (s # ss) ! i = Pending"
    proof
      assume "s = Pending"
      then have "0 < length (s # ss) \<and> (s # ss) ! 0 = Pending" by simp
      then show ?thesis by blast
    next
      assume "\<exists>i<length ss. ss ! i = Pending"
      then obtain j where "j < length ss" "ss ! j = Pending" by blast
      then have "Suc j < length (s # ss) \<and> (s # ss) ! Suc j = Pending" by simp
      then show ?thesis by blast
    qed
  qed
  with Cons show ?case by (cases s) (auto split: option.splits)
qed

lemma allSettled_Some:
  "allSettled ss = Some outs \<Longrightarrow>
     length outs = length ss \<and> (\<forall>i<length ss. outcome_of (ss ! i) = Some (outs ! i))"
proof (induction ss arbitrary: outs)
  case Nil
  then show ?case by simp
next
  case (Cons s ss)
  from Cons.prems obtain x xs where x: "outcome_of s = Some x" and xs: "allSettled ss = Some xs"
    and o: "outs = x # xs"
    by (auto split: option.splits)
  from Cons.IH [OF xs] x o show ?case by (auto simp: nth_Cons split: nat.splits)
qed

lemma slot_outcome:
  assumes "store_ok w" and "slot_ok w src p" and "outcome_of (promise_state w p) = Some x"
  shows "outcome_for src x"
proof (cases p)
  case (Immediate h)
  with assms(2,3) show ?thesis by (auto simp: promise_state_def)
next
  case (OfLoad lid)
  with assms(2) have l: "lid < length (loads w)" and s: "l_src (loads w ! lid) = src" by simp_all
  from assms(1) l have "load_ok (loads w ! lid)" by (simp add: store_ok_def list_all_length)
  with assms(3) OfLoad l s show ?thesis by (simp add: promise_state_def load_ok_def)
qed

subsection \<open>preloadAll\<close>

text \<open>
  C3. \<open>preloadAll\<close>, called in any reachable state on any list of identifiers, calls
  \<open>preload\<close> once per identifier, in order, and keeps the promises in that order. After any
  later events, in whatever order the loads complete: the result is still pending exactly
  when one of those promises is pending, even when others are already rejected; and when
  the result is there, it has one outcome per identifier, in the order of the input, the
  \<open>i\<close>-th outcome being that of the \<open>i\<close>-th promise: fulfilled with an element loaded from
  the \<open>i\<close>-th identifier, or rejected with the load-failure message of that identifier.
\<close>

theorem preloadAll_settles_all:
  fixes g :: "string list" and es0 es :: "event list" and sources :: "string list"
  defines "w \<equiv> run g es0 init"
  defines "ps \<equiv> fst (preload_each sources w)"
  defines "bid \<equiv> fst (preloadAll sources w)"
  defines "w2 \<equiv> run g es (snd (preloadAll sources w))"
  shows "length ps = length sources \<and>
         length (loads (snd (preloadAll sources w))) =
           length (loads w) + length (filter (\<lambda>s. \<not> isCached s w) sources) \<and>
         bid < length (batches w2) \<and> b_slots (batches w2 ! bid) = ps \<and>
         (batch_result w2 bid = None \<longleftrightarrow> (\<exists>i<length sources. promise_state w2 (ps ! i) = Pending)) \<and>
         (\<forall>outs. batch_result w2 bid = Some outs \<longrightarrow>
            length outs = length sources \<and>
            (\<forall>i<length sources.
               outcome_of (promise_state w2 (ps ! i)) = Some (outs ! i) \<and>
               outcome_for (sources ! i) (outs ! i)))"
proof -
  let ?w1 = "snd (preloadAll sources w)"
  have ok: "store_ok w" unfolding w_def by (rule store_ok_run [OF store_ok_init])
  have ok2: "store_ok w2" unfolding w2_def by (rule store_ok_run [OF store_ok_preloadAll [OF ok]])
  have len: "length ps = length sources" by (simp add: ps_def)
  have cnt: "length (loads ?w1) = length (loads w) + length (filter (\<lambda>s. \<not> isCached s w) sources)"
    by (simp add: preloadAll_batches preload_each_count)
  have b1: "bid < length (map b_slots (batches ?w1))" "map b_slots (batches ?w1) ! bid = ps"
    by (simp_all add: bid_def ps_def preloadAll_batches nth_append)
  from prefix_nth [OF slots_run [of ?w1 g es] b1(1)] b1(2)
  have b3: "bid < length (batches w2)" and b4: "map b_slots (batches w2) ! bid = ps"
    by (simp_all add: w2_def)
  from b4 b3 have "b_slots (batches w2 ! bid) = ps" by simp
  with b3 have b2: "bid < length (batches w2)" "b_slots (batches w2 ! bid) = ps" by simp_all
  have s2: "slot_ok w2 (sources ! i) (ps ! i)" if "i < length sources" for i
  proof -
    from preload_each_slot_ok [OF ok, of sources] that
    have "slot_ok (snd (preload_each sources w)) (sources ! i) (ps ! i)"
      by (simp add: ps_def list_all2_conv_all_nth)
    then have "slot_ok ?w1 (sources ! i) (ps ! i)"
      by (rule slot_ok_mono) (simp add: preloadAll_batches)
    then show ?thesis unfolding w2_def
      by (rule slot_ok_mono) (rule srcs_run)
  qed
  have r: "batch_result w2 bid = allSettled (map (promise_state w2) ps)"
    using b2 by (simp add: batch_result_def)
  have none: "batch_result w2 bid = None \<longleftrightarrow> (\<exists>i<length sources. promise_state w2 (ps ! i) = Pending)"
    unfolding r allSettled_None_iff using len by auto
  have some: "length outs = length sources \<and>
            (\<forall>i<length sources.
               outcome_of (promise_state w2 (ps ! i)) = Some (outs ! i) \<and>
               outcome_for (sources ! i) (outs ! i))"
    if "batch_result w2 bid = Some outs" for outs
  proof -
    from that r have "allSettled (map (promise_state w2) ps) = Some outs" by simp
    from allSettled_Some [OF this] len
    have l: "length outs = length sources"
      and o: "\<And>i. i < length sources \<Longrightarrow> outcome_of (promise_state w2 (ps ! i)) = Some (outs ! i)"
      by simp_all
    from slot_outcome [OF ok2 s2 o] l o show ?thesis by blast
  qed
  from len cnt b2 none some show ?thesis by blast
qed

theorem preloadAll_settles_all_witness:
  "batch_result
     (run [] [PreloadLoad 2, PreloadError 1, PreloadLoad 0]
        (snd (preloadAll [''a.jpg'', ''b.mp4'', ''c.jpg''] (run [] [] init))))
     (fst (preloadAll [''a.jpg'', ''b.mp4'', ''c.jpg''] (run [] [] init))) =
   Some [OFulfilled \<lparr>el_kind = Image, el_src = ''a.jpg'', el_load = 0\<rparr>,
         ORejected ''Failed to load video: b.mp4'',
         OFulfilled \<lparr>el_kind = Image, el_src = ''c.jpg'', el_load = 2\<rparr>] \<and>
   outcome_for ''b.mp4'' (ORejected ''Failed to load video: b.mp4'') \<and>
   batch_result
     (run [] [PreloadError 1, PreloadLoad 0]
        (snd (preloadAll [''a.jpg'', ''b.mp4'', ''c.jpg''] (run [] [] init))))
     (fst (preloadAll [''a.jpg'', ''b.mp4'', ''c.jpg''] (run [] [] init))) = None \<and>
   promise_state
     (run [] [PreloadError 1, PreloadLoad 0]
        (snd (preloadAll [''a.jpg'', ''b.mp4'', ''c.jpg''] (run [] [] init))))
     (fst (preload_each [''a.jpg'', ''b.mp4'', ''c.jpg''] (run [] [] init)) ! 2) = Pending"
proof -
  have r: "batch_result
     (run [] [PreloadLoad 2, PreloadError 1, PreloadLoad 0]
        (snd (preloadAll [''a.jpg'', ''b.mp4'', ''c.jpg''] (run [] [] init))))
     (fst (preloadAll [''a.jpg'', ''b.mp4'', ''c.jpg''] (run [] [] init))) =
   Some [OFulfilled \<lparr>el_kind = Image, el_src = ''a.jpg'', el_load = 0\<rparr>,
         ORejected ''Failed to load video: b.mp4'',
         OFulfilled \<lparr>el_kind = Image, el_src = ''c.jpg'', el_load = 2\<rparr>]"
    by code_simp
  have p: "promise_state
     (run [] [PreloadError 1, PreloadLoad 0]
        (snd (preloadAll [''a.jpg'', ''b.mp4'', ''c.jpg''] (run [] [] init))))
     (fst (preload_each [''a.jpg'', ''b.mp4'', ''c.jpg''] (run [] [] init)) ! 2) = Pending"
    by code_simp
  from preloadAll_settles_all [of "[''a.jpg'', ''b.mp4'', ''c.jpg'']" "[]" "[]"
      "[PreloadLoad 2, PreloadError 1, PreloadLoad 0]"] r
  have o: "outcome_for ''b.mp4'' (ORejected ''Failed to load video: b.mp4'')"
    by (auto dest: spec [of _ 1])
  from preloadAll_settles_all [of "[''a.jpg'', ''b.mp4'', ''c.jpg'']" "[]" "[]"
      "[PreloadError 1, PreloadLoad 0]"] p
  have n: "batch_result
     (run [] [PreloadError 1, PreloadLoad 0]
        (snd (preloadAll [''a.jpg'', ''b.mp4'', ''c.jpg''] (run [] [] init))))
     (fst (preloadAll [''a.jpg'', ''b.mp4'', ''c.jpg''] (run [] [] init))) = None"
    by auto
  from r o n p show ?thesis by simp
qed

subsection \<open>An arrow key on an identifier outside the list\<close>

lemma takeWhile_enqueue:
  "takeWhile (\<lambda>u. fst u \<le> fst x) (enqueue x ts) = takeWhile (\<lambda>u. fst u \<le> fst x) ts @ [x]"
  by (induction ts) auto

lemma nodes_fold_fire: "length (nodes w) \<le> length (nodes (fold (fire g) ts w))"
proof (induction ts arbitrary: w)
  case Nil
  then show ?case by simp
next
  case (Cons t ts)
  from nodes_fire [of w g t] Cons [of "fire g t w"] show ?case by simp
qed

lemma overlay_inv_fold_fire: "overlay_inv w \<Longrightarrow> overlay_inv (fold (fire g) ts w)"
  by (rule fold_invariant [where P = overlay_inv]) (simp_all add: overlay_inv_fire)

lemma showProjectImages_opens:
  assumes "overlay_inv w" and "0 \<le> i" and "i < int (length g)"
  shows "document (run_callback (showProjectImages (Some i) g) w) = [length (nodes w)]"
    and "listeners (run_callback (showProjectImages (Some i) g) w) =
           [EscHandler (length (nodes w)), KeyNavHandler (length (nodes w))]"
    and "length (nodes (run_callback (showProjectImages (Some i) g) w)) = Suc (length (nodes w))"
    and "ov_src (nodes (run_callback (showProjectImages (Some i) g) w) ! length (nodes w)) = g ! nat i"
proof -
  let ?src = "g ! nat i"
  let ?v = "endsWith ?src ''.mp4'' \<or> endsWith ?src ''.webm''"
  let ?w1 = "showPreview ?src ?v w"
  let ?next = "g ! nat ((i + 1) mod int (length g))"
  let ?bg = "catch_warn (fst (preload ?next ?w1)) (''Failed to preload: '' @ ?next) (snd (preload ?next ?w1))"
  have r: "run_callback (showProjectImages (Some i) g) w =
      (if (i + 1) mod int (length g) = i then ?w1 else ?bg)"
    using showProjectImages_valid [OF assms(2,3), of w] by (simp add: run_callback_def Let_def)
  have f: "document ?bg = document ?w1" "listeners ?bg = listeners ?w1" "nodes ?bg = nodes ?w1"
    by simp_all
  from showPreview_inv(1,2) [OF assms(1), of ?src ?v] showPreview_nodes [of ?src ?v w]
  show "document (run_callback (showProjectImages (Some i) g) w) = [length (nodes w)]"
    and "listeners (run_callback (showProjectImages (Some i) g) w) =
           [EscHandler (length (nodes w)), KeyNavHandler (length (nodes w))]"
    and "length (nodes (run_callback (showProjectImages (Some i) g) w)) = Suc (length (nodes w))"
    and "ov_src (nodes (run_callback (showProjectImages (Some i) g) w) ! length (nodes w)) = g ! nat i"
    unfolding r by (simp_all add: f)
qed

lemma keydown_arrow:
  assumes "overlay_inv w" and "document w = [oid]" and "key = ''ArrowLeft'' \<or> key = ''ArrowRight''"
  shows "handle g (KeyDown key) w =
           keyNavHandler g oid (ov_src (nodes w ! oid)) key w"
proof -
  from assms(1,2) have l: "listeners w = [EscHandler oid, KeyNavHandler oid]"
    by (simp add: overlay_inv_def)
  from assms(3) have "key \<noteq> ''Escape''" by auto
  then show ?thesis by (simp add: handle_def l run_listener_def escHandler_def)
qed

lemma navigate_after_300:
  assumes "overlay_inv w" and "document w = [oid]"
    and "keyNavHandler g oid (ov_src (nodes w ! oid)) key w =
           setTimeout 300 (ShowProjectImages (Some i)) (closePreview oid w)"
    and "key = ''ArrowLeft'' \<or> key = ''ArrowRight''" and "0 \<le> i" and "i < int (length g)"
  shows "\<exists>k. length (nodes w) \<le> k \<and>
           document (run g [KeyDown key, Elapse 300] w) = [k] \<and>
           listeners (run g [KeyDown key, Elapse 300] w) = [EscHandler k, KeyNavHandler k] \<and>
           ov_src (nodes (run g [KeyDown key, Elapse 300] w) ! k) = g ! nat i"
proof -
  let ?x = "(now w + 300, ShowProjectImages (Some i))"
  let ?w1 = "step g (KeyDown key) w"
  let ?ts = "enqueue (now w + 300, Cleanup oid) (timers w)"
  have h: "handle g (KeyDown key) w = setTimeout 300 (ShowProjectImages (Some i)) (closePreview oid w)"
    using keydown_arrow [OF assms(1,2,4), of g] assms(3) by simp
  have t1: "timers ?w1 = enqueue ?x ?ts" and n1: "now ?w1 = now w"
    and l1: "length (nodes ?w1) = length (nodes w)"
    by (simp_all add: step_def h closePreview_def prim_defs)
  have i1: "overlay_inv ?w1" by (rule overlay_inv_step [OF assms(1)])
  let ?pre = "takeWhile (\<lambda>u. fst u \<le> now w + 300) ?ts"
  let ?later = "dropWhile (\<lambda>u. fst u \<le> now w + 300) (enqueue ?x ?ts)"
  let ?s = "fold (fire g) ?pre (?w1\<lparr>timers := ?later\<rparr>)"
  let ?s' = "?s\<lparr>now := now w + 300\<rparr>"
  let ?r = "run_callback (showProjectImages (Some i) g) ?s'"
  have due: "takeWhile (\<lambda>u. fst u \<le> now w + 300) (enqueue ?x ?ts) = ?pre @ [?x]"
    using takeWhile_enqueue [of ?x ?ts] by simp
  have e: "elapse g 300 ?w1 = ?r\<lparr>now := now w + 300\<rparr>"
    by (simp add: elapse_def Let_def t1 n1 due fire_def run_timer_def)
  have inv_s: "overlay_inv ?s'"
    using overlay_inv_fold_fire [of "?w1\<lparr>timers := ?later\<rparr>" g ?pre] i1 by simp
  have ls: "length (nodes w) \<le> length (nodes ?s')"
    using nodes_fold_fire [of "?w1\<lparr>timers := ?later\<rparr>" g ?pre] l1 by simp
  have w2: "run g [KeyDown key, Elapse 300] w = microtasks (?r\<lparr>now := now w + 300\<rparr>)"
    by (simp add: run_def step_def [of g "Elapse 300"] handle_def e)
  from showProjectImages_opens [OF inv_s assms(5,6)]
  have "document (run g [KeyDown key, Elapse 300] w) = [length (nodes ?s')]"
    and "listeners (run g [KeyDown key, Elapse 300] w) =
           [EscHandler (length (nodes ?s')), KeyNavHandler (length (nodes ?s'))]"
    and "ov_src (nodes (run g [KeyDown key, Elapse 300] w) ! length (nodes ?s')) = g ! nat i"
    unfolding w2 by simp_all
  with ls show ?thesis by blast
qed

text \<open>
  C10. When the shown identifier is not in the gallery list, \<open>indexOf\<close> gives -1 and the
  key is not ignored. For a list of length \<open>N \<ge> 2\<close> the arrow handler closes the overlay
  and schedules \<open>showProjectImages\<close> for index 0 on ArrowRight and for index \<open>N - 2\<close> on
  ArrowLeft. In any state reached after \<open>showPreview\<close> was called on such an identifier,
  with that overlay in the document, the keydown puts that call among the timers, due
  300 ms later; and once the 300 ms have passed the document holds exactly one overlay, a
  new one, with its own two listeners, showing the item at index 0, respectively at
  index \<open>N - 2\<close>.
\<close>

theorem keyNavHandler_absent:
  fixes gallery :: "string list" and es0 es1 :: "event list" and src :: string and v :: bool
  defines "w \<equiv> run gallery es1 (showPreview src v (run gallery es0 init))"
  assumes "src \<notin> set gallery" and "2 \<le> length gallery"
    and "document w = [oid]" and "ov_src (nodes w ! oid) = src"
  shows "keyNavHandler gallery oid' src ''ArrowRight'' w0 =
           setTimeout 300 (ShowProjectImages (Some 0)) (closePreview oid' w0) \<and>
         keyNavHandler gallery oid' src ''ArrowLeft'' w0 =
           setTimeout 300 (ShowProjectImages (Some (int (length gallery) - 2))) (closePreview oid' w0) \<and>
         (now w + 300, ShowProjectImages (Some 0)) \<in>
           set (timers (step gallery (KeyDown ''ArrowRight'') w)) \<and>
         (now w + 300, ShowProjectImages (Some (int (length gallery) - 2))) \<in>
           set (timers (step gallery (KeyDown ''ArrowLeft'') w)) \<and>
         (\<exists>k. oid < k \<and>
            document (run gallery [KeyDown ''ArrowRight'', Elapse 300] w) = [k] \<and>
            listeners (run gallery [KeyDown ''ArrowRight'', Elapse 300] w) =
              [EscHandler k, KeyNavHandler k] \<and>
            ov_src (nodes (run gallery [KeyDown ''ArrowRight'', Elapse 300] w) ! k) = gallery ! 0) \<and>
         (\<exists>k. oid < k \<and>
            document (run gallery [KeyDown ''ArrowLeft'', Elapse 300] w) = [k] \<and>
            listeners (run gallery [KeyDown ''ArrowLeft'', Elapse 300] w) =
              [EscHandler k, KeyNavHandler k] \<and>
            ov_src (nodes (run gallery [KeyDown ''ArrowLeft'', Elapse 300] w) ! k) =
              gallery ! (length gallery - 2))"
proof -
  from assms(3) have n: "2 \<le> int (length gallery)" by simp
  have r0: "js_rem (int (length gallery)) (int (length gallery)) = Some 0"
    by (rule js_rem_self) (use n in linarith)
  have l0: "js_rem (int (length gallery) - 2) (int (length gallery)) = Some (int (length gallery) - 2)"
    by (rule js_rem_small) (use n in linarith)+
  have right: "keyNavHandler gallery a src ''ArrowRight'' s =
           setTimeout 300 (ShowProjectImages (Some 0)) (closePreview a s)"
    and left: "keyNavHandler gallery a src ''ArrowLeft'' s =
           setTimeout 300 (ShowProjectImages (Some (int (length gallery) - 2))) (closePreview a s)"
    for a s
    using assms(2) r0 l0 by (simp_all add: keyNavHandler_def Let_def indexOf_absent)
  have inv: "overlay_inv w" unfolding w_def
    by (rule overlay_inv_run [OF showPreview_inv(3) [OF overlay_inv_run [OF overlay_inv_init]]])
  from inv assms(4) have lt: "oid < length (nodes w)" by (simp add: overlay_inv_def)
  have tr: "(now w + 300, ShowProjectImages (Some 0)) \<in>
           set (timers (step gallery (KeyDown ''ArrowRight'') w))"
    using keydown_arrow [OF inv assms(4), of "''ArrowRight''" gallery] right [of oid w] assms(5)
    by (simp add: step_def closePreview_def prim_defs)
  have tl: "(now w + 300, ShowProjectImages (Some (int (length gallery) - 2))) \<in>
           set (timers (step gallery (KeyDown ''ArrowLeft'') w))"
    using keydown_arrow [OF inv assms(4), of "''ArrowLeft''" gallery] left [of oid w] assms(5)
    by (simp add: step_def closePreview_def prim_defs)
  have i0: "(0::int) \<le> 0" "(0::int) < int (length gallery)" using n by linarith+
  have i2: "0 \<le> int (length gallery) - 2" "int (length gallery) - 2 < int (length gallery)"
    using n by linarith+
  have k2: "nat (int (length gallery) - 2) = length gallery - 2" by linarith
  from navigate_after_300 [OF inv assms(4) _ _ i0, of "''ArrowRight''"] right [of oid w] assms(5) lt
  have er: "\<exists>k. oid < k \<and>
            document (run gallery [KeyDown ''ArrowRight'', Elapse 300] w) = [k] \<and>
            listeners (run gallery [KeyDown ''ArrowRight'', Elapse 300] w) =
              [EscHandler k, KeyNavHandler k] \<and>
            ov_src (nodes (run gallery [KeyDown ''ArrowRight'', Elapse 300] w) ! k) = gallery ! 0"
    by fastforce
  from navigate_after_300 [OF inv assms(4) _ _ i2, of "''ArrowLeft''"] left [of oid w] assms(5) lt
  have el: "\<exists>k. oid < k \<and>
            document (run gallery [KeyDown ''ArrowLeft'', Elapse 300] w) = [k] \<and>
            listeners (run gallery [KeyDown ''ArrowLeft'', Elapse 300] w) =
              [EscHandler k, KeyNavHandler k] \<and>
            ov_src (nodes (run gallery [KeyDown ''ArrowLeft'', Elapse 300] w) ! k) =
              gallery ! (length gallery - 2)"
    unfolding k2 by fastforce
  from right [of oid' w0] left [of oid' w0] tr tl er el show ?thesis by blast
qed

theorem keyNavHandler_absent_witness:
  "''images/other.jpg'' \<notin> set archProjectImages \<and> 2 \<le> length archProjectImages \<and>
   document (run archProjectImages [ContentLoad 0]
      (showPreview ''images/other.jpg'' False (run archProjectImages [] init))) = [0] \<and>
   ov_src (nodes (run archProjectImages [ContentLoad 0]
      (showPreview ''images/other.jpg'' False (run archProjectImages [] init))) ! 0) = ''images/other.jpg'' \<and>
   document (run archProjectImages [KeyDown ''ArrowRight'', Elapse 300]
      (run archProjectImages [ContentLoad 0]
         (showPreview ''images/other.jpg'' False (run archProjectImages [] init)))) = [1] \<and>
   ov_src (nodes (run archProjectImages [KeyDown ''ArrowRight'', Elapse 300]
      (run archProjectImages [ContentLoad 0]
         (showPreview ''images/other.jpg'' False (run archProjectImages [] init)))) ! 1) =
     ''images/arch1.jpg'' \<and>
   document (run archProjectImages [KeyDown ''ArrowLeft'', Elapse 300]
      (run archProjectImages [ContentLoad 0]
         (showPreview ''images/other.jpg'' False (run archProjectImages [] init)))) = [1] \<and>
   ov_src (nodes (run archProjectImages [KeyDown ''ArrowLeft'', Elapse 300]
      (run archProjectImages [ContentLoad 0]
         (showPreview ''images/other.jpg'' False (run archProjectImages [] init)))) ! 1) =
     ''images/arch199.jpg'' \<and>
   archProjectImages ! 0 = ''images/arch1.jpg'' \<and>
   archProjectImages ! (length archProjectImages - 2) = ''images/arch199.jpg''"
proof -
  let ?w = "run archProjectImages [ContentLoad 0]
      (showPreview ''images/other.jpg'' False (run archProjectImages [] init))"
  have m: "''images/other.jpg'' \<notin> set archProjectImages" by code_simp
  have n: "length archProjectImages = 200" by code_simp
  then have n2: "2 \<le> length archProjectImages" by simp
  have d: "document ?w = [0]" by code_simp
  have s: "ov_src (nodes ?w ! 0) = ''images/other.jpg''" by code_simp
  have g: "archProjectImages ! 0 = ''images/arch1.jpg''"
    "archProjectImages ! 198 = ''images/arch199.jpg''" by code_simp+
  from keyNavHandler_absent [OF m n2 d s, of 0 init]
  obtain k j where
    k: "document (run archProjectImages [KeyDown ''ArrowRight'', Elapse 300] ?w) = [k]"
       "ov_src (nodes (run archProjectImages [KeyDown ''ArrowRight'', Elapse 300] ?w) ! k) =
          archProjectImages ! 0"
    and j: "document (run archProjectImages [KeyDown ''ArrowLeft'', Elapse 300] ?w) = [j]"
       "ov_src (nodes (run archProjectImages [KeyDown ''ArrowLeft'', Elapse 300] ?w) ! j) =
          archProjectImages ! (length archProjectImages - 2)"
    by blast
  have dr: "document (run archProjectImages [KeyDown ''ArrowRight'', Elapse 300] ?w) = [1]"
    and dl: "document (run archProjectImages [KeyDown ''ArrowLeft'', Elapse 300] ?w) = [1]"
    by code_simp+
  from k(1) dr have "k = 1" by simp
  moreover from j(1) dl have "j = 1" by simp
  ultimately show ?thesis using m n2 d s k(2) j(2) dr dl g n by simp
qed

end
